theory Spec2Isabelle
  imports Main "HOL-Library.Sublist" "HOL-Library.Word"
begin

unbundle bit_operations_syntax

section \<open>pakkun: signature-matching function extraction (src/parse/parse.go)\<close>

text \<open>
  Go strings and byte slices are sequences of bytes; they are modelled as \<^typ>\<open>string\<close>
  (lists of 8-bit \<^typ>\<open>char\<close>). A Go \<^verbatim>\<open>map[string]bool\<close> is a partial map
  \<^typ>\<open>string \<rightharpoonup> bool\<close>: the two-value lookup \<^verbatim>\<open>desired, valid := m[t]\<close> gives
  \<open>valid\<close> iff the key is present and \<open>desired\<close> iff it is present with value true.
  A runtime panic and \<^verbatim>\<open>log.Fatal\<close> both end the process; they are the \<open>Inl\<close> results
  of the functions below.

  The program starts goroutines that append to shared slices without a lock. What
  they leave behind depends on how their steps interleave, so \<open>parseJavaFuncHeader\<close>
  and \<open>ParseFile\<close> take the interleaving as an argument, and a property of the program
  is a property for every interleaving.
\<close>

datatype failure = IndexOutOfRange | LogFatal

subsection \<open>The functions of package strings that the program calls\<close>

text \<open>
  \<^verbatim>\<open>strings.Index(s, substr)\<close>: the index of the first occurrence of \<open>substr\<close> in
  \<open>s\<close>, or -1.
\<close>

fun indexFrom :: "string \<Rightarrow> string \<Rightarrow> nat \<Rightarrow> int" where
  "indexFrom [] sub i = (if sub = [] then int i else - 1)"
| "indexFrom (c # cs) sub i = (if prefix sub (c # cs) then int i else indexFrom cs sub (Suc i))"

definition Index :: "string \<Rightarrow> string \<Rightarrow> int" where
  "Index s sub = indexFrom s sub 0"

text \<open>
  \<^verbatim>\<open>strings.Split(s, sep)\<close> cuts \<open>s\<close> at the leftmost, non-overlapping occurrences of
  \<open>sep\<close>; the result always has at least one piece. Every call in parse.go passes a
  non-empty literal separator; for an empty separator Go returns one piece per UTF-8
  sequence, which this model does not reproduce (it returns the single piece \<open>s\<close>).
  \<open>cur\<close> is the piece collected since the last separator.
\<close>

function splitAcc :: "string \<Rightarrow> string \<Rightarrow> string \<Rightarrow> string list" where
  "splitAcc sep cur [] = [cur]"
| "splitAcc sep cur (c # cs) =
     (if sep \<noteq> [] \<and> prefix sep (c # cs)
      then cur # splitAcc sep [] (drop (length sep) (c # cs))
      else splitAcc sep (cur @ [c]) cs)"
  by pat_completeness auto
termination
  by (relation "measure (\<lambda>(sep, cur, s). length s)") auto

definition Split :: "string \<Rightarrow> string \<Rightarrow> string list" where
  "Split s sep = splitAcc sep [] s"

text \<open>
  \<^verbatim>\<open>strings.Replace(s, old, "", -1)\<close> with a one-byte \<open>old\<close>, the only form the
  program uses: every occurrence of the byte is deleted.
\<close>

definition ReplaceAllEmpty :: "string \<Rightarrow> char \<Rightarrow> string" where
  "ReplaceAllEmpty s old = filter (\<lambda>c. c \<noteq> old) s"

text \<open>
  \<^verbatim>\<open>strings.TrimSpace\<close> removes leading and trailing white space as Unicode defines
  it (\<^verbatim>\<open>unicode.IsSpace\<close>). On the bytes of a string these are the six ASCII
  characters tab, line feed, vertical tab, form feed, carriage return and space, and the
  UTF-8 encodings of U+0085, U+00A0, U+1680, U+2000..U+200A, U+2028, U+2029, U+202F,
  U+205F and U+3000. Go decodes an ill-formed or overlong sequence as U+FFFD, which is
  not white space, so exactly these byte sequences are trimmed.
\<close>

definition spaceEncodings :: "string list" where
  "spaceEncodings =
     [[CHR 0x09], [CHR 0x0A], [CHR 0x0B], [CHR 0x0C], [CHR 0x0D], [CHR 0x20],
      [CHR 0xC2, CHR 0x85], [CHR 0xC2, CHR 0xA0],
      [CHR 0xE1, CHR 0x9A, CHR 0x80],
      [CHR 0xE2, CHR 0x80, CHR 0x80], [CHR 0xE2, CHR 0x80, CHR 0x81],
      [CHR 0xE2, CHR 0x80, CHR 0x82], [CHR 0xE2, CHR 0x80, CHR 0x83],
      [CHR 0xE2, CHR 0x80, CHR 0x84], [CHR 0xE2, CHR 0x80, CHR 0x85],
      [CHR 0xE2, CHR 0x80, CHR 0x86], [CHR 0xE2, CHR 0x80, CHR 0x87],
      [CHR 0xE2, CHR 0x80, CHR 0x88], [CHR 0xE2, CHR 0x80, CHR 0x89],
      [CHR 0xE2, CHR 0x80, CHR 0x8A],
      [CHR 0xE2, CHR 0x80, CHR 0xA8], [CHR 0xE2, CHR 0x80, CHR 0xA9],
      [CHR 0xE2, CHR 0x80, CHR 0xAF],
      [CHR 0xE2, CHR 0x81, CHR 0x9F],
      [CHR 0xE3, CHR 0x80, CHR 0x80]]"

function stripLeading :: "string list \<Rightarrow> string \<Rightarrow> string" where
  "stripLeading ws s =
     (case find (\<lambda>w. w \<noteq> [] \<and> prefix w s) ws of
        None \<Rightarrow> s
      | Some w \<Rightarrow> stripLeading ws (drop (length w) s))"
  by pat_completeness auto
termination
proof (relation "measure (\<lambda>(ws, s). length s)")
  show "wf (measure (\<lambda>(ws, s). length s))" by simp
next
  fix ws :: "string list" and s w :: string
  assume "find (\<lambda>w. w \<noteq> [] \<and> prefix w s) ws = Some w"
  then have "w \<noteq> []" and "prefix w s"
    by (auto simp: find_Some_iff)
  then have "s \<noteq> []" by auto
  with \<open>w \<noteq> []\<close> show "((ws, drop (length w) s), (ws, s)) \<in> measure (\<lambda>(ws, s). length s)"
    by simp
qed

definition TrimSpace :: "string \<Rightarrow> string" where
  "TrimSpace s =
     rev (stripLeading (map rev spaceEncodings) (rev (stripLeading spaceEncodings s)))"

subsection \<open>Unsynchronised appends to a shared slice\<close>

text \<open>
  For the statement \<^verbatim>\<open>s = append(s, e)\<close> on a shared variable \<open>s\<close> a goroutine
  \<^enum> loads the slice header of \<open>s\<close> (pointer, length, capacity);
  \<^enum> when the capacity is used up, allocates a larger array, copies the loaded
    length of elements into it and writes pointer, length and capacity back to \<open>s\<close>;
    otherwise writes only the new length to \<open>s\<close>;
  \<^enum> stores \<open>e\<close> at the loaded length in the array it holds.
  Without a lock the steps of several goroutines interleave. A goroutine that has
  loaded the header before another one wrote it overwrites that write (an element is
  lost); a goroutine that copies an array between the second and the third step of
  another one copies a slot that is still the zero value; goroutines finish in any
  order. Each of the three steps is taken as one step here; interleavings inside the
  load or the store of the three words of a header are not modelled.

  A \<open>task\<close> is what a goroutine still has to do. The state holds the header of \<open>s\<close>,
  the arrays allocated so far (the array at index 0 is the empty array of the initial
  slice \<^verbatim>\<open>[]string{}\<close>) and the tasks of the goroutines, in the order in which the
  goroutines are started. Only the goroutines that append have a task.
\<close>

datatype 'a task = Start 'a | Loaded 'a nat nat nat | Store 'a nat nat | Done

record 'a slicevar =
  sptr :: nat
  slen :: nat
  scap :: nat
  heap :: "'a list list"
  tasks :: "'a task list"

text \<open>
  The capacity of the new array: the runtime doubles the old capacity, and takes the
  needed length when that is more (its rounding to allocation sizes, which differs for
  large slices, is left out).
\<close>

definition growCap :: "nat \<Rightarrow> nat \<Rightarrow> nat" where
  "growCap oldcap needed = max needed (2 * oldcap)"

definition start :: "'a list \<Rightarrow> 'a slicevar" where
  "start es = \<lparr>sptr = 0, slen = 0, scap = 0, heap = [[]], tasks = map Start es\<rparr>"

text \<open>
  \<open>step zero k\<close>: goroutine \<open>k\<close> takes its next step; \<open>zero\<close> is the zero value of the
  element type, which fills a new array. A goroutine that has finished, or a number
  that is no goroutine, changes nothing.
\<close>

definition step :: "'a \<Rightarrow> nat \<Rightarrow> 'a slicevar \<Rightarrow> 'a slicevar" where
  "step zero k st =
     (if k < length (tasks st) then
        (case tasks st ! k of
           Start e \<Rightarrow> st\<lparr>tasks := (tasks st)[k := Loaded e (sptr st) (slen st) (scap st)]\<rparr>
         | Loaded e p n c \<Rightarrow>
             if n + 1 > c then
               st\<lparr>sptr := length (heap st), slen := n + 1, scap := growCap c (n + 1),
                  heap := heap st @ [take n (heap st ! p) @ replicate (growCap c (n + 1) - n) zero],
                  tasks := (tasks st)[k := Store e (length (heap st)) n]\<rparr>
             else st\<lparr>slen := n + 1, tasks := (tasks st)[k := Store e p n]\<rparr>
         | Store e p i \<Rightarrow>
             st\<lparr>heap := (heap st)[p := (heap st ! p)[i := e]], tasks := (tasks st)[k := Done]\<rparr>
         | Done \<Rightarrow> st)
      else st)"

text \<open>
  \<^verbatim>\<open>wg.Wait()\<close> returns when every goroutine has finished. An interleaving is a list
  of goroutine numbers, one for each step taken; the goroutines that have steps left
  after it run to their end one after the other. The empty interleaving runs the
  goroutines one after the other in the order they are started.
\<close>

definition runToEnd :: "'a \<Rightarrow> nat \<Rightarrow> 'a slicevar \<Rightarrow> 'a slicevar" where
  "runToEnd zero k st = step zero k (step zero k (step zero k st))"

definition finish :: "'a \<Rightarrow> 'a slicevar \<Rightarrow> 'a slicevar" where
  "finish zero st = fold (runToEnd zero) [0..<length (tasks st)] st"

text \<open>
  The slice that is read after the join. A stale length written over a header that
  another goroutine has replaced can reach past the array; what the program reads there
  is not determined by the source, and the model reads the zero value.
\<close>

definition sliceOf :: "'a \<Rightarrow> 'a slicevar \<Rightarrow> 'a list" where
  "sliceOf zero st =
     map (\<lambda>i. if i < length (heap st ! sptr st) then heap st ! sptr st ! i else zero) [0..<slen st]"

definition raceAppend :: "'a \<Rightarrow> nat list \<Rightarrow> 'a list \<Rightarrow> 'a list" where
  "raceAppend zero steps es = sliceOf zero (finish zero (fold (step zero) steps (start es)))"


subsection \<open>parseJavaFuncHeader\<close>

text \<open>
  The parser starts one goroutine per checked token. A goroutine looks its token up
  and then appends it to \<open>out\<close> (or \<open>in\<close>), or sets \<open>halt\<close>, or does nothing.
\<close>

datatype 'a effect = Append 'a | SetHalt | NoEffect

text \<open>The goroutine started for a token left of the parenthesis.\<close>

definition checkNonparameter :: "(string \<rightharpoonup> bool) \<Rightarrow> string \<Rightarrow> string effect" where
  "checkNonparameter funcTypes t0 =
     (let t = TrimSpace t0;
          valid = (funcTypes t \<noteq> None);
          desired = (funcTypes t = Some True)
      in if valid \<and> desired then Append t
         else if \<not> valid then SetHalt
         else NoEffect)"

text \<open>
  The body of the loop over the parameter tokens: a goroutine is started for the
  tokens at even indexes only; it cuts the token at its first comma and trims it.
\<close>

definition checkParameter :: "(string \<rightharpoonup> bool) \<Rightarrow> nat \<times> string \<Rightarrow> string effect" where
  "checkParameter funcTypes it =
     (if fst it mod 2 = 0 then
        (let t = TrimSpace (hd (Split (snd it) '',''));
             valid = (funcTypes t \<noteq> None);
             desired = (funcTypes t = Some True)
         in if valid \<and> desired then Append t
            else if \<not> valid then SetHalt
            else NoEffect)
      else NoEffect)"

text \<open>The elements that the goroutines append, in the order the goroutines are started.\<close>

fun appended :: "'a effect list \<Rightarrow> 'a list" where
  "appended [] = []"
| "appended (Append e # effs) = e # appended effs"
| "appended (eff # effs) = appended effs"

text \<open>
  The goroutines left of the parenthesis append to \<open>out\<close> only and those of the
  parameters to \<open>in\<close> only, so an interleaving of all of them is an interleaving of the
  appends to \<open>out\<close> and one of the appends to \<open>in\<close>. \<open>halt\<close> is only ever set to true
  and is read after \<^verbatim>\<open>wg.Wait()\<close>: it is true exactly when some goroutine sets it.

  Every indexed read of the parser other than the one of the last character is in
  range: \<open>Split\<close> with a non-empty separator returns at least one piece, and
  \<open>split[0]\<close> and \<open>split[1]\<close> are read only when there are two pieces.
\<close>

record interleaving =
  outSteps :: "nat list"
  inSteps :: "nat list"

definition parseJavaFuncHeader ::
  "interleaving \<Rightarrow> string \<Rightarrow> (string \<rightharpoonup> bool)
     \<Rightarrow> failure + (string \<times> string list \<times> string list \<times> bool)" where
  "parseJavaFuncHeader sched header0 funcTypes =
     (let header = TrimSpace (hd (Split header0 ''//'')) in
      if header = [] then Inl IndexOutOfRange
      else if last header = CHR '';'' then Inr (header, [], [], False)
      else
        let split = Split header ''(''
        in if length split = 2 then
             (let nonparameters0 = Split (split ! 0) '' '';
                  fname = last nonparameters0;
                  nonparameters = butlast nonparameters0;
                  outGo = (if length nonparameters > 2
                           then map (checkNonparameter funcTypes) nonparameters
                           else []);
                  parameters = Split (hd (Split (split ! 1) '')'')) '' '';
                  inGo = map (checkParameter funcTypes) (enumerate 0 parameters);
                  out = raceAppend [] (outSteps sched) (appended outGo);
                  ins = raceAppend [] (inSteps sched) (appended inGo);
                  halt = (SetHalt \<in> set outGo \<or> SetHalt \<in> set inGo)
              in if halt \<or> length nonparameters \<le> 2
                 then Inr ([], ins, out, False)
                 else Inr (fname, ins, out, True))
           else Inr ([], [], [], False))"

subsection \<open>hash\<close>

text \<open>
  \<^verbatim>\<open>fnv.New32a\<close>: 32-bit FNV-1a. Starting from the offset basis, every byte is
  xor-ed into the state, which is then multiplied by the FNV prime modulo \<open>2 ^ 32\<close>.
\<close>

definition hash :: "string \<Rightarrow> 32 word" where
  "hash s = fold (\<lambda>c h. (h XOR of_char c) * 16777619) s 2166136261"

subsection \<open>File and Function\<close>

record Function =
  Id :: "32 word"
  Name :: string
  Header :: string
  InType :: "string list"
  OutType :: "string list"
  Source :: string

text \<open>
  The fields \<open>Id\<close> and \<open>Name\<close> of the Go struct \<open>File\<close> are \<open>File_Id\<close> and
  \<open>File_Name\<close> here, since a field name belongs to one record type.
\<close>

record File =
  File_Id :: "32 word"
  File_Name :: string
  Path :: string
  Funcs :: "Function list"

text \<open>The zero value of \<open>File\<close>, which \<^verbatim>\<open>var file File\<close> declares.\<close>

definition zeroFile :: File where
  "zeroFile = \<lparr>File_Id = 0, File_Name = [], Path = [], Funcs = []\<rparr>"

text \<open>The zero value of \<open>Function\<close>.\<close>

definition zeroFunction :: Function where
  "zeroFunction = \<lparr>Id = 0, Name = [], Header = [], InType = [], OutType = [], Source = []\<rparr>"

subsection \<open>balance\<close>

text \<open>
  The first loop of \<open>balance\<close> looks for the first opening brace (byte 123) at or
  after \<open>m\<close>. The result is the index after that brace, or \<open>None\<close> when the end of
  the array is reached first.
\<close>

function findOpen :: "string \<Rightarrow> nat \<Rightarrow> nat option" where
  "findOpen arr m =
     (if m < length arr
      then (if arr ! m = CHR 0x7B then Some (Suc m) else findOpen arr (Suc m))
      else None)"
  by pat_completeness auto
termination
  by (relation "measure (\<lambda>(arr, m). length arr - m)") auto

text \<open>
  The second loop counts braces (123 opens, 125 closes) until the count is back at
  zero or the array ends. It returns the final index and count.
\<close>

function matchBraces :: "string \<Rightarrow> nat \<Rightarrow> int \<Rightarrow> nat \<times> int" where
  "matchBraces arr m count =
     (if m \<ge> length arr then (m, count)
      else
        (let count1 = (if arr ! m = CHR 0x7B then count + 1 else count);
             count2 = (if arr ! m = CHR 0x7D then count1 - 1 else count1)
         in if count2 = 0 then (m, count2) else matchBraces arr (Suc m) count2))"
  by pat_completeness auto
termination
  by (relation "measure (\<lambda>(arr, m, count). length arr - m)") auto

text \<open>
  \<open>m\<close> is a Go \<open>int\<close>. For a negative \<open>m\<close> the test \<^verbatim>\<open>m < len(arr)\<close> holds and the
  read \<^verbatim>\<open>arr[m]\<close> panics. When the first loop reaches the end of the array, the code
  writes a diagnostic to /tmp/dat1 and returns the empty string; the file write is not
  part of the model. The empty string is the failure result.
\<close>

definition balance :: "string \<Rightarrow> int \<Rightarrow> failure + string" where
  "balance arr m0 =
     (if m0 < 0 then Inl IndexOutOfRange
      else
        (let start = nat m0 in
         case findOpen arr start of
           None \<Rightarrow> Inr []
         | Some m1 \<Rightarrow>
             (case matchBraces arr m1 1 of
                (m, count) \<Rightarrow>
                  if count \<noteq> 0 then Inr []
                  else Inr (ReplaceAllEmpty
                             (ReplaceAllEmpty (take (Suc m - start) (drop start arr)) (CHR 0x0A))
                             (CHR 0x09)))))"

subsection \<open>extractFuncSrc\<close>

text \<open>
  The loop of \<open>extractFuncSrc\<close>: \<open>funcLen\<close> is the length of \<open>f.Funcs\<close> when the loop
  starts and is not updated; \<open>funcs\<close> is the current \<open>f.Funcs\<close>. Reading
  \<^verbatim>\<open>f.Funcs[fi]\<close> beyond the current length panics. An empty header reaches
  \<^verbatim>\<open>log.Fatal()\<close>.
\<close>

function extractLoop :: "string \<Rightarrow> Function list \<Rightarrow> nat \<Rightarrow> nat \<Rightarrow> failure + Function list" where
  "extractLoop content funcs fi funcLen =
     (if fi < funcLen then
        (if fi \<ge> length funcs then Inl IndexOutOfRange
         else
           (let fn = funcs ! fi in
            if length (Header fn) = 0 then Inl LogFatal
            else
              (case balance content (Index content (Header fn)) of
                 Inl e \<Rightarrow> Inl e
               | Inr src \<Rightarrow>
                   if length src > 0
                   then extractLoop content (funcs[fi := (funcs ! fi)\<lparr>Source := src\<rparr>]) (Suc fi) funcLen
                   else extractLoop content (take fi funcs @ drop (Suc fi) funcs) (Suc fi) funcLen)))
      else Inr funcs)"
  by pat_completeness auto
termination
  by (relation "measure (\<lambda>(content, funcs, fi, funcLen). funcLen - fi)") auto

text \<open>
  \<open>disk\<close> is what the file system holds at \<open>f.Path\<close>: \<open>None\<close> when \<^verbatim>\<open>os.Stat\<close>
  reports that the file does not exist, otherwise the bytes \<^verbatim>\<open>ioutil.ReadFile\<close>
  returns (none at all when the read fails, as its error is dropped).
\<close>

definition extractFuncSrc :: "File \<Rightarrow> string option \<Rightarrow> failure + File" where
  "extractFuncSrc f disk =
     (case disk of
        None \<Rightarrow> Inr f
      | Some content \<Rightarrow>
          (case extractLoop content (Funcs f) 0 (length (Funcs f)) of
             Inl e \<Rightarrow> Inl e
           | Inr funcs \<Rightarrow> Inr (f\<lparr>Funcs := funcs\<rparr>)))"

subsection \<open>ParseFile\<close>

text \<open>
  \<open>ParseFile\<close> starts one goroutine per header line. The goroutine parses the header,
  with the goroutines of the parser interleaving in their own way, and appends a
  \<open>Function\<close> to the shared slice \<open>funcHeaders\<close> when the header passes the filter. A
  panic in a goroutine ends the process, whatever the other goroutines do.
\<close>

definition headerTask ::
  "interleaving \<Rightarrow> (string \<rightharpoonup> bool) \<Rightarrow> string \<Rightarrow> failure + Function effect" where
  "headerTask sched funcTypes header =
     (case parseJavaFuncHeader sched header funcTypes of
        Inl e \<Rightarrow> Inl e
      | Inr (fname, ins, outs, ok) \<Rightarrow>
          if ok \<and> length ins > 0 \<and> length outs > 0
          then Inr (Append
                 \<lparr>Id = hash (fname @ TrimSpace header), Name = fname,
                  Header = TrimSpace (ReplaceAllEmpty header (CHR 0x7B)),
                  InType = ins, OutType = outs, Source = []\<rparr>)
          else Inr NoEffect)"

text \<open>
  The goroutines of the headers from number \<open>i\<close> on; \<open>typeSteps i\<close> is the interleaving
  inside the parse of header \<open>i\<close>.
\<close>

fun headerTasks ::
  "(nat \<Rightarrow> interleaving) \<Rightarrow> (string \<rightharpoonup> bool) \<Rightarrow> nat \<Rightarrow> string list
     \<Rightarrow> failure + Function effect list" where
  "headerTasks typeSteps funcTypes i [] = Inr []"
| "headerTasks typeSteps funcTypes i (header # rest) =
     (case headerTask (typeSteps i) funcTypes header of
        Inl e \<Rightarrow> Inl e
      | Inr eff \<Rightarrow>
          (case headerTasks typeSteps funcTypes (Suc i) rest of
             Inl e \<Rightarrow> Inl e
           | Inr effs \<Rightarrow> Inr (eff # effs)))"

text \<open>
  \<open>ParseFile\<close> obtains the header lines from the external pipeline ctags, grep, awk.
  The model takes the lines the scanner reads from that pipeline as \<open>ctagLines\<close>, the
  state of the file at \<open>path\<close> as \<open>disk\<close>, and the interleavings of the goroutines as
  \<open>sched\<close>: \<open>headerSteps\<close> for the appends to \<open>funcHeaders\<close>.
\<close>

record schedule =
  typeSteps :: "nat \<Rightarrow> interleaving"
  headerSteps :: "nat list"

definition ParseFile ::
  "schedule \<Rightarrow> string list \<Rightarrow> string option \<Rightarrow> string \<Rightarrow> (string \<rightharpoonup> bool)
     \<Rightarrow> failure + (File \<times> bool)" where
  "ParseFile sched ctagLines disk path funcTypes =
     (let splits = Split path ''/'';
          fname = last splits;
          ctagHeaders = map (\<lambda>l. l @ [CHR 0x0A]) ctagLines
      in case headerTasks (typeSteps sched) funcTypes 0 ctagHeaders of
           Inl e \<Rightarrow> Inl e
         | Inr go \<Rightarrow>
             (let funcHeaders = raceAppend zeroFunction (headerSteps sched) (appended go)
              in if length funcHeaders > 0
                 then (case extractFuncSrc
                              \<lparr>File_Id = hash path, File_Name = fname, Path = path,
                               Funcs = funcHeaders\<rparr>
                              disk of
                         Inl e \<Rightarrow> Inl e
                       | Inr file \<Rightarrow> Inr (file, True))
                 else Inr (zeroFile, False)))"

section \<open>Notions used to state the properties\<close>

text \<open>
  The interleaving in which every goroutine finishes before the next one starts, for
  the parser and for \<open>ParseFile\<close>.
\<close>

definition inOrderTypes :: interleaving where
  "inOrderTypes = \<lparr>outSteps = [], inSteps = []\<rparr>"

definition inOrder :: schedule where
  "inOrder = \<lparr>typeSteps = (\<lambda>i. inOrderTypes), headerSteps = []\<rparr>"

text \<open>
  The universe of the end-to-end scenarios of the specification, and the same universe
  with the Java modifiers of the scenario's header as known, undesired keys.
\<close>

definition scenarioUniverse :: "string \<rightharpoonup> bool" where
  "scenarioUniverse = [''int'' \<mapsto> True, ''String'' \<mapsto> True, ''float'' \<mapsto> False]"

definition modifierUniverse :: "string \<rightharpoonup> bool" where
  "modifierUniverse = scenarioUniverse(''public'' \<mapsto> False, ''static'' \<mapsto> False)"

text \<open>
  The text the parser works on: the header up to its first \<open>//\<close>, trimmed.
\<close>

definition headerText :: "string \<Rightarrow> string" where
  "headerText H = TrimSpace (hd (Split H ''//''))"

text \<open>
  The tokens the parser looks up in the universe: the tokens left of the parenthesis
  without the name (when there are more than two of them), and the tokens at even
  indexes of the parameter list, cut at the first comma; all trimmed.
\<close>

definition checkedLeftTokens :: "string \<Rightarrow> string list" where
  "checkedLeftTokens H =
     (let split = Split (headerText H) ''('';
          nonparameters = butlast (Split (split ! 0) '' '')
      in if length split = 2 \<and> length nonparameters > 2
         then map TrimSpace nonparameters else [])"

definition checkedParameterTokens :: "string \<Rightarrow> string list" where
  "checkedParameterTokens H =
     (let split = Split (headerText H) ''(''
      in if length split = 2
         then map (\<lambda>it. TrimSpace (hd (Split (snd it) '','')))
                (filter (\<lambda>it. fst it mod 2 = 0)
                   (enumerate 0 (Split (hd (Split (split ! 1) '')'')) '' '')))
         else [])"

definition declaredTypes :: "string \<Rightarrow> string list" where
  "declaredTypes H = checkedLeftTokens H @ checkedParameterTokens H"

text \<open>
  The goroutines of a header with exactly one opening parenthesis, by what they do, and
  the value of \<open>halt\<close> after the join.
\<close>

definition outGoroutines :: "string \<Rightarrow> (string \<rightharpoonup> bool) \<Rightarrow> string effect list" where
  "outGoroutines H U =
     (let nonparameters = butlast (Split (Split (headerText H) ''('' ! 0) '' '')
      in if length nonparameters > 2 then map (checkNonparameter U) nonparameters else [])"

definition inGoroutines :: "string \<Rightarrow> (string \<rightharpoonup> bool) \<Rightarrow> string effect list" where
  "inGoroutines H U =
     map (checkParameter U)
       (enumerate 0 (Split (hd (Split (Split (headerText H) ''('' ! 1) '')'')) '' ''))"

definition haltOf :: "string \<Rightarrow> (string \<rightharpoonup> bool) \<Rightarrow> bool" where
  "haltOf H U = (SetHalt \<in> set (outGoroutines H U) \<or> SetHalt \<in> set (inGoroutines H U))"

text \<open>The bytes that occur in the encoding of a white space character.\<close>

definition spaceBytes :: "char set" where
  "spaceBytes = (\<Union>w\<in>set spaceEncodings. set w)"

subsection \<open>Blocks of braces\<close>

text \<open>
  \<open>closesAtEnd d s\<close>: reading \<open>s\<close> with \<open>d\<close> braces open, the number of open braces
  reaches zero at the last byte of \<open>s\<close> and not before. A well-formed block starts with
  an opening brace that its last byte closes.
\<close>

fun closesAtEnd :: "nat \<Rightarrow> string \<Rightarrow> bool" where
  "closesAtEnd d [] = False"
| "closesAtEnd d (c # cs) =
     (if c = CHR 0x7B then closesAtEnd (Suc d) cs
      else if c = CHR 0x7D then (if d \<le> 1 then d = 1 \<and> cs = [] else closesAtEnd (d - 1) cs)
      else closesAtEnd d cs)"

definition wellFormedBlock :: "string \<Rightarrow> bool" where
  "wellFormedBlock B = (case B of [] \<Rightarrow> False | c # cs \<Rightarrow> c = CHR 0x7B \<and> closesAtEnd 1 cs)"

text \<open>
  \<open>staysOpen d s\<close>: reading \<open>s\<close> with \<open>d\<close> braces open, the number of open braces
  never reaches zero.
\<close>

fun staysOpen :: "nat \<Rightarrow> string \<Rightarrow> bool" where
  "staysOpen d [] = True"
| "staysOpen d (c # cs) =
     (if c = CHR 0x7B then staysOpen (Suc d) cs
      else if c = CHR 0x7D then (1 < d \<and> staysOpen (d - 1) cs)
      else staysOpen d cs)"

text \<open>The text with every line feed and every horizontal tab removed.\<close>

definition withoutNewlinesTabs :: "string \<Rightarrow> string" where
  "withoutNewlinesTabs s = filter (\<lambda>c. c \<noteq> CHR 0x0A \<and> c \<noteq> CHR 0x09) s"

text \<open>
  The same blocks as a grammar: a balanced text is a sequence of bytes other than
  braces and of blocks \<open>{ balanced text }\<close>.
\<close>

inductive balancedText :: "string \<Rightarrow> bool" where
  empty: "balancedText []"
| other: "c \<noteq> CHR 0x7B \<Longrightarrow> c \<noteq> CHR 0x7D \<Longrightarrow> balancedText s \<Longrightarrow> balancedText (c # s)"
| nested: "balancedText a \<Longrightarrow> balancedText b \<Longrightarrow> balancedText (CHR 0x7B # a @ CHR 0x7D # b)"

text \<open>What one byte does to the counter in the second loop of \<open>balance\<close>.\<close>

definition braceStep :: "char \<Rightarrow> int \<Rightarrow> int" where
  "braceStep c count = (let count1 = (if c = CHR 0x7B then count + 1 else count)
                   in if c = CHR 0x7D then count1 - 1 else count1)"


subsection \<open>Survivors of header filtering\<close>

text \<open>
  A header survives the filter of \<open>ParseFile\<close> when the parser accepts it with at
  least one input type and at least one output type. Whether it does is the same for
  every interleaving (\<open>survives_interleaving\<close> below).
\<close>

definition survives :: "(string \<rightharpoonup> bool) \<Rightarrow> string \<Rightarrow> bool" where
  "survives U header =
     (case parseJavaFuncHeader inOrderTypes header U of
        Inl e \<Rightarrow> False
      | Inr (fname, ins, outs, ok) \<Rightarrow> ok \<and> length ins > 0 \<and> length outs > 0)"

text \<open>
  A file with two functions: the braces of \<open>f\<close> never balance, those of \<open>g\<close> do. And
  the two \<open>Function\<close> values that \<open>ParseFile\<close> builds from their header lines.
\<close>

definition twoFunctions :: string where
  "twoFunctions =
     ''public static int f(int a) {{ }'' @ [CHR 0x0A] @ ''public static int g(int a) { }''"

definition functionF :: Function where
  "functionF = \<lparr>Id = hash (''f'' @ ''public static int f(int a) {''), Name = ''f'',
                 Header = ''public static int f(int a)'', InType = [''int''],
                 OutType = [''int''], Source = []\<rparr>"

definition functionG :: Function where
  "functionG = \<lparr>Id = hash (''g'' @ ''public static int g(int a) {''), Name = ''g'',
                 Header = ''public static int g(int a)'', InType = [''int''],
                 OutType = [''int''], Source = []\<rparr>"

text \<open>A file whose only function has a comment on its header line.\<close>

definition commentedHeader :: string where
  "commentedHeader =
     ''public static int f(int a) { // note'' @ [CHR 0x0A] @ ''  return a; }''"

subsection \<open>States of the racing appends\<close>

text \<open>
  A goroutine is past its write of the header when it has the element left to store or
  has finished. Once a goroutine is past it, the length of the slice is positive.
\<close>

fun past :: "'a task \<Rightarrow> bool" where
  "past (Store e p i) = True"
| "past Done = True"
| "past t = False"

definition lenSet :: "'a slicevar \<Rightarrow> bool" where
  "lenSet st = ((\<exists>t\<in>set (tasks st). past t) \<longrightarrow> 0 < slen st)"

text \<open>The four states that a single appending goroutine goes through.\<close>

definition single :: "'a \<Rightarrow> 'a \<Rightarrow> nat \<Rightarrow> 'a slicevar" where
  "single z e i =
     (if i = 0 then start [e]
      else if i = 1 then \<lparr>sptr = 0, slen = 0, scap = 0, heap = [[]], tasks = [Loaded e 0 0 0]\<rparr>
      else if i = 2 then \<lparr>sptr = 1, slen = 1, scap = 1, heap = [[], [z]], tasks = [Store e 1 0]\<rparr>
      else \<lparr>sptr = 1, slen = 1, scap = 1, heap = [[], [e]], tasks = [Done]\<rparr>)"

text \<open>
  The state after the first \<open>k\<close> goroutines have run one after the other: the slice
  holds the first \<open>k\<close> elements.
\<close>

definition inOrderInv :: "'a list \<Rightarrow> nat \<Rightarrow> 'a slicevar \<Rightarrow> bool" where
  "inOrderInv es k st =
     (tasks st = replicate k Done @ map Start (drop k es)
      \<and> slen st = k \<and> sptr st < length (heap st)
      \<and> length (heap st ! sptr st) = scap st \<and> k \<le> scap st
      \<and> take k (heap st ! sptr st) = take k es)"


section \<open>Racing appends\<close>

text \<open>
  Three facts hold for every interleaving: the slice is empty exactly when no goroutine
  appends; a single appending goroutine leaves its element; and the goroutines run one
  after the other leave their elements in the order they are started.
\<close>

lemma length_tasks_step: "length (tasks (step z k st)) = length (tasks st)"
  by (simp add: step_def split: task.splits)

lemma tasks_step_other: "j \<noteq> k \<Longrightarrow> tasks (step z k st) ! j = tasks st ! j"
  by (simp add: step_def split: task.splits)

lemma step_Done: "tasks st ! j = Done \<Longrightarrow> tasks (step z k st) ! j = Done"
  by (cases "j = k") (auto simp: step_def split: task.splits)

lemma step_no_tasks: "tasks st = [] \<Longrightarrow> step z k st = st"
  by (simp add: step_def)

lemma length_tasks_runToEnd: "length (tasks (runToEnd z k st)) = length (tasks st)"
  by (simp add: runToEnd_def length_tasks_step)

lemma runToEnd_Done_kept: "tasks st ! j = Done \<Longrightarrow> tasks (runToEnd z k st) ! j = Done"
  by (simp add: runToEnd_def step_Done)

lemma runToEnd_Done:
  assumes "k < length (tasks st)"
  shows "tasks (runToEnd z k st) ! k = Done"
proof (cases "tasks st ! k")
  case (Start e)
  with assms show ?thesis
    by (simp add: runToEnd_def step_def)
next
  case (Loaded e p n c)
  with assms show ?thesis
    by (simp add: runToEnd_def step_def)
next
  case (Store e p i)
  with assms show ?thesis
    by (simp add: runToEnd_def step_def)
next
  case Done
  then show ?thesis by (rule runToEnd_Done_kept)
qed

lemma fold_runToEnd_length:
  "length (tasks (fold (runToEnd z) ks st)) = length (tasks st)"
  by (induction ks arbitrary: st) (simp_all add: length_tasks_runToEnd)

lemma fold_runToEnd_Done_kept:
  "tasks st ! j = Done \<Longrightarrow> tasks (fold (runToEnd z) ks st) ! j = Done"
  by (induction ks arbitrary: st) (simp_all add: runToEnd_Done_kept)

lemma fold_runToEnd_Done:
  "\<forall>k\<in>set ks. k < length (tasks st) \<Longrightarrow> j \<in> set ks \<Longrightarrow>
     tasks (fold (runToEnd z) ks st) ! j = Done"
proof (induction ks arbitrary: st)
  case Nil
  then show ?case by simp
next
  case (Cons k ks)
  show ?case
  proof (cases "j = k")
    case True
    with Cons.prems have "tasks (runToEnd z k st) ! j = Done"
      by (simp add: runToEnd_Done)
    then show ?thesis by (simp add: fold_runToEnd_Done_kept)
  next
    case False
    with Cons.prems have "j \<in> set ks" by simp
    moreover from Cons.prems have "\<forall>k'\<in>set ks. k' < length (tasks (runToEnd z k st))"
      by (simp add: length_tasks_runToEnd)
    ultimately show ?thesis using Cons.IH by simp
  qed
qed

lemma finish_Done: "j < length (tasks st) \<Longrightarrow> tasks (finish z st) ! j = Done"
  unfolding finish_def by (rule fold_runToEnd_Done) simp_all

lemma length_tasks_finish: "length (tasks (finish z st)) = length (tasks st)"
  by (simp add: finish_def fold_runToEnd_length)

lemma lenSet_step: "lenSet st \<Longrightarrow> lenSet (step z k st)"
proof -
  assume inv: "lenSet st"
  show ?thesis
  proof (cases "k < length (tasks st)")
    case False
    with inv show ?thesis by (simp add: step_def)
  next
    case True
    show ?thesis
    proof (cases "tasks st ! k")
      case (Start e)
      have "set ((tasks st)[k := Loaded e (sptr st) (slen st) (scap st)])
              \<subseteq> insert (Loaded e (sptr st) (slen st) (scap st)) (set (tasks st))"
        by (rule set_update_subset_insert)
      with inv Start True show ?thesis
        by (auto simp: lenSet_def step_def)
    next
      case (Loaded e p n c)
      with True show ?thesis
        by (simp add: lenSet_def step_def)
    next
      case (Store e p i)
      with True have "Store e p i \<in> set (tasks st)"
        by (metis nth_mem)
      moreover have "past (Store e p i)" by simp
      ultimately have "\<exists>t\<in>set (tasks st). past t" by (rule bexI [rotated])
      with inv have "0 < slen st"
        by (simp add: lenSet_def)
      with Store True show ?thesis
        by (simp add: lenSet_def step_def)
    next
      case Done
      with inv True show ?thesis by (simp add: step_def)
    qed
  qed
qed

lemma lenSet_fold_step: "lenSet st \<Longrightarrow> lenSet (fold (step z) ks st)"
  by (induction ks arbitrary: st) (simp_all add: lenSet_step)

lemma lenSet_runToEnd: "lenSet st \<Longrightarrow> lenSet (runToEnd z k st)"
  by (simp add: runToEnd_def lenSet_step)

lemma lenSet_finish: "lenSet st \<Longrightarrow> lenSet (finish z st)"
proof -
  have "lenSet st \<Longrightarrow> lenSet (fold (runToEnd z) ks st)" for ks
    by (induction ks arbitrary: st) (simp_all add: lenSet_runToEnd)
  then show "lenSet st \<Longrightarrow> lenSet (finish z st)"
    by (simp add: finish_def)
qed

lemma lenSet_start: "lenSet (start es)"
  by (auto simp: lenSet_def start_def)

lemma length_fold_step: "length (tasks (fold (step z) ks st)) = length (tasks st)"
  by (induction ks arbitrary: st) (simp_all add: length_tasks_step)

lemma length_sliceOf: "length (sliceOf z st) = slen st"
  by (simp add: sliceOf_def)

lemma raceAppend_Nil: "raceAppend z steps [] = []"
proof -
  have "fold (step z) steps (start []) = start ([] :: 'a list)"
    by (induction steps) (simp_all add: step_no_tasks start_def)
  then show ?thesis
    by (simp add: raceAppend_def finish_def sliceOf_def start_def)
qed

lemma raceAppend_not_Nil:
  assumes "es \<noteq> []"
  shows "raceAppend z steps es \<noteq> []"
proof -
  define mid where "mid = fold (step z) steps (start es)"
  define fin where "fin = finish z mid"
  have len: "length (tasks fin) = length es"
    by (simp add: fin_def mid_def length_tasks_finish length_fold_step start_def)
  with assms have pos: "0 < length (tasks fin)" by simp
  have "0 < length (tasks mid)"
    using assms by (simp add: mid_def length_fold_step start_def)
  then have "tasks fin ! 0 = Done"
    unfolding fin_def by (rule finish_Done)
  with pos have "Done \<in> set (tasks fin)"
    by (metis nth_mem)
  then have "\<exists>t\<in>set (tasks fin). past t"
    by (intro bexI [of _ Done]) simp_all
  moreover have "lenSet fin"
    by (simp add: fin_def mid_def lenSet_finish lenSet_fold_step lenSet_start)
  ultimately have "0 < slen fin"
    by (simp add: lenSet_def)
  then have "length (raceAppend z steps es) > 0"
    by (simp add: raceAppend_def length_sliceOf fin_def mid_def)
  then show ?thesis by auto
qed

lemma raceAppend_empty_iff: "(raceAppend z steps es = []) = (es = [])"
  using raceAppend_Nil [of z steps] raceAppend_not_Nil [of es z steps] by auto


lemma step_single: "\<exists>j. step z k (single z e i) = single z e j"
proof (cases "k = 0")
  case False
  then have "step z k (single z e i) = single z e i"
    by (simp add: step_def single_def start_def)
  then show ?thesis by (rule exI)
next
  case True
  consider "i = 0" | "i = 1" | "i = 2" | "3 \<le> i" by linarith
  then show ?thesis
  proof cases
    case 1
    with True have "step z k (single z e i) = single z e 1"
      by (simp add: step_def single_def start_def)
    then show ?thesis by (rule exI)
  next
    case 2
    with True have "step z k (single z e i) = single z e 2"
      by (simp add: step_def single_def growCap_def)
    then show ?thesis by (rule exI)
  next
    case 3
    with True have "step z k (single z e i) = single z e 3"
      by (simp add: step_def single_def)
    then show ?thesis by (rule exI)
  next
    case 4
    with True have "step z k (single z e i) = single z e i"
      by (simp add: step_def single_def)
    then show ?thesis by (rule exI)
  qed
qed

lemma fold_step_single: "\<exists>j. fold (step z) ks (single z e i) = single z e j"
proof (induction ks arbitrary: i)
  case Nil
  show ?case by (simp, rule exI, rule refl)
next
  case (Cons k ks)
  obtain j where "step z k (single z e i) = single z e j"
    using step_single [of z k e i] by (elim exE)
  with Cons.IH [of j] show ?case by simp
qed

lemma finish_single: "finish z (single z e i) = single z e 3"
proof -
  consider "i = 0" | "i = 1" | "i = 2" | "3 \<le> i" by linarith
  then show ?thesis
    by cases (simp_all add: finish_def runToEnd_def step_def single_def start_def growCap_def)
qed

lemma raceAppend_single: "raceAppend z steps [e] = [e]"
proof -
  have "start [e] = single z e 0" by (simp add: single_def)
  then obtain j where "fold (step z) steps (start [e]) = single z e j"
    using fold_step_single [of z steps e 0] by auto
  then show ?thesis
    by (simp add: raceAppend_def finish_single) (simp add: single_def sliceOf_def)
qed

lemma raceAppend_short: "length es \<le> 1 \<Longrightarrow> raceAppend z steps es = es"
proof (cases es)
  case Nil
  then show ?thesis by (simp add: raceAppend_Nil)
next
  case (Cons e es')
  assume "length es \<le> 1"
  with Cons have "es = [e]" by simp
  then show ?thesis by (simp add: raceAppend_single)
qed

lemma inOrderInv_runToEnd:
  assumes inv: "inOrderInv es k st" and k: "k < length es"
  shows "inOrderInv es (Suc k) (runToEnd z k st)"
proof -
  from inv have t: "tasks st = replicate k Done @ map Start (drop k es)"
    and len: "slen st = k" and p: "sptr st < length (heap st)"
    and cap: "length (heap st ! sptr st) = scap st" and kc: "k \<le> scap st"
    and tk: "take k (heap st ! sptr st) = take k es"
    by (simp_all add: inOrderInv_def)
  from k have dr: "drop k es = es ! k # drop (Suc k) es"
    by (simp add: Cons_nth_drop_Suc)
  have klen: "k < length (tasks st)" using k by (simp add: t)
  have tk0: "tasks st ! k = Start (es ! k)"
    by (simp add: t dr nth_append)
  have upd: "\<And>x. (tasks st)[k := x] = replicate k Done @ x # map Start (drop (Suc k) es)"
    by (simp add: t dr list_update_append)
  have tnext: "replicate k Done @ Done # map Start (drop (Suc k) es)
      = replicate (Suc k) Done @ map Start (drop (Suc k) es)"
    by (simp add: replicate_append_same)
  have tSuc: "take (Suc k) es = take k es @ [es ! k]"
    using k by (simp add: take_Suc_conv_app_nth)
  define s1 where "s1 = st\<lparr>tasks := replicate k Done @ Loaded (es ! k) (sptr st) k (scap st)
                                   # map Start (drop (Suc k) es)\<rparr>"
  have s1: "step z k st = s1"
    using klen tk0 len by (simp add: s1_def step_def upd)
  have k1: "k < length (tasks s1)" and t1: "tasks s1 ! k = Loaded (es ! k) (sptr st) k (scap st)"
    and u1: "\<And>x. (tasks s1)[k := x] = replicate k Done @ x # map Start (drop (Suc k) es)"
    by (simp_all add: s1_def nth_append list_update_append)
  show ?thesis
  proof (cases "k + 1 > scap st")
    case True
    define arr where "arr = take k (heap st ! sptr st) @ replicate (growCap (scap st) (k + 1) - k) z"
    have g: "k + 1 \<le> growCap (scap st) (k + 1)" by (simp add: growCap_def)
    have larr: "length arr = growCap (scap st) (k + 1)"
      using g kc cap by (simp add: arr_def)
    define s2 where "s2 = st\<lparr>sptr := length (heap st), slen := k + 1,
           scap := growCap (scap st) (k + 1), heap := heap st @ [arr],
           tasks := replicate k Done @ Store (es ! k) (length (heap st)) k
                      # map Start (drop (Suc k) es)\<rparr>"
    have s2: "step z k s1 = s2"
      using True k1 t1 by (simp add: step_def u1) (simp add: s1_def s2_def arr_def)
    have k2: "k < length (tasks s2)" and t2: "tasks s2 ! k = Store (es ! k) (length (heap st)) k"
      and u2: "\<And>x. (tasks s2)[k := x] = replicate k Done @ x # map Start (drop (Suc k) es)"
      by (simp_all add: s2_def nth_append list_update_append)
    define s3 where "s3 = st\<lparr>sptr := length (heap st), slen := k + 1,
           scap := growCap (scap st) (k + 1), heap := heap st @ [arr[k := es ! k]],
           tasks := replicate k Done @ Done # map Start (drop (Suc k) es)\<rparr>"
    have s3: "step z k s2 = s3"
      using k2 t2 by (simp add: step_def u2) (simp add: s2_def s3_def)
    have fin: "runToEnd z k st = s3"
      by (simp add: runToEnd_def s1 s2 s3)
    have "take (Suc k) (arr[k := es ! k]) = take k es @ [es ! k]"
      using g larr tk kc cap by (simp add: take_Suc_conv_app_nth) (simp add: arr_def)
    then show ?thesis
      using g larr by (simp add: fin s3_def inOrderInv_def tnext tSuc del: replicate_Suc)
  next
    case False
    define s2 where "s2 = st\<lparr>slen := k + 1,
           tasks := replicate k Done @ Store (es ! k) (sptr st) k
                      # map Start (drop (Suc k) es)\<rparr>"
    have s2: "step z k s1 = s2"
      using False k1 t1 by (simp add: step_def u1) (simp add: s1_def s2_def)
    have k2: "k < length (tasks s2)" and t2: "tasks s2 ! k = Store (es ! k) (sptr st) k"
      and u2: "\<And>x. (tasks s2)[k := x] = replicate k Done @ x # map Start (drop (Suc k) es)"
      by (simp_all add: s2_def nth_append list_update_append)
    define s3 where "s3 = st\<lparr>slen := k + 1,
           heap := (heap st)[sptr st := (heap st ! sptr st)[k := es ! k]],
           tasks := replicate k Done @ Done # map Start (drop (Suc k) es)\<rparr>"
    have s3: "step z k s2 = s3"
      using k2 t2 by (simp add: step_def u2) (simp add: s2_def s3_def)
    have fin: "runToEnd z k st = s3"
      by (simp add: runToEnd_def s1 s2 s3)
    have "take (Suc k) ((heap st ! sptr st)[k := es ! k]) = take k es @ [es ! k]"
      using False cap tk by (simp add: take_Suc_conv_app_nth)
    then show ?thesis
      using False p cap by (simp add: fin s3_def inOrderInv_def tnext tSuc del: replicate_Suc)
  qed
qed

lemma inOrderInv_fold:
  "k \<le> length es \<Longrightarrow> inOrderInv es k (fold (runToEnd z) [0..<k] (start es))"
proof (induction k)
  case 0
  show ?case by (simp add: inOrderInv_def start_def)
next
  case (Suc k)
  then have "inOrderInv es k (fold (runToEnd z) [0..<k] (start es))" by simp
  then have "inOrderInv es (Suc k) (runToEnd z k (fold (runToEnd z) [0..<k] (start es)))"
    using Suc.prems by (intro inOrderInv_runToEnd) simp_all
  then show ?case by simp
qed

lemma raceAppend_in_order: "raceAppend z [] es = es"
proof -
  define fin where "fin = finish z (start es)"
  have "inOrderInv es (length es) fin"
    using inOrderInv_fold [of "length es" es z] by (simp add: fin_def finish_def start_def)
  then have len: "slen fin = length es" and cap: "length es \<le> length (heap fin ! sptr fin)"
    and tk: "take (length es) (heap fin ! sptr fin) = es"
    by (simp_all add: inOrderInv_def)
  have "sliceOf z fin = map ((!) (heap fin ! sptr fin)) [0..<length es]"
    using cap by (simp add: sliceOf_def len)
  also have "\<dots> = take (length es) (heap fin ! sptr fin)"
    by (rule nth_equalityI) (use cap in simp_all)
  finally have "sliceOf z fin = es"
    by (simp add: tk)
  then show ?thesis
    by (simp add: raceAppend_def fin_def)
qed

section \<open>The header parser\<close>

lemma parse_unfold:
  "parseJavaFuncHeader s H U =
     (if headerText H = [] then Inl IndexOutOfRange
      else if last (headerText H) = CHR '';'' then Inr (headerText H, [], [], False)
      else if length (Split (headerText H) ''('') = 2 then
        (if haltOf H U \<or> length (butlast (Split (Split (headerText H) ''('' ! 0) '' '')) \<le> 2
         then Inr ([], raceAppend [] (inSteps s) (appended (inGoroutines H U)),
                   raceAppend [] (outSteps s) (appended (outGoroutines H U)), False)
         else Inr (last (Split (Split (headerText H) ''('' ! 0) '' ''),
                   raceAppend [] (inSteps s) (appended (inGoroutines H U)),
                   raceAppend [] (outSteps s) (appended (outGoroutines H U)), True))
      else Inr ([], [], [], False))"
  by (simp add: parseJavaFuncHeader_def haltOf_def outGoroutines_def inGoroutines_def
      headerText_def Let_def)

lemma setHalt_checkNonparameter:
  "(checkNonparameter U t = SetHalt) = (U (TrimSpace t) = None)"
  by (auto simp: checkNonparameter_def Let_def)

lemma setHalt_checkParameter:
  "(checkParameter U it = SetHalt)
     = (fst it mod 2 = 0 \<and> U (TrimSpace (hd (Split (snd it) '',''))) = None)"
  by (auto simp: checkParameter_def Let_def)

lemma mem_map_iff: "(y \<in> set (map f xs)) = (\<exists>x\<in>set xs. f x = y)"
  by auto

lemma setHalt_map_checkNonparameter:
  "(SetHalt \<in> set (map (checkNonparameter U) ts)) = (\<exists>t\<in>set ts. U (TrimSpace t) = None)"
  by (simp only: mem_map_iff setHalt_checkNonparameter)

lemma setHalt_map_checkParameter:
  "(SetHalt \<in> set (map (checkParameter U) its))
     = (\<exists>it\<in>set its. fst it mod 2 = 0 \<and> U (TrimSpace (hd (Split (snd it) '',''))) = None)"
  by (simp only: mem_map_iff setHalt_checkParameter)

lemma bex_map_filter:
  "(\<exists>t\<in>set (map f (filter P xs)). Q t) = (\<exists>x\<in>set xs. P x \<and> Q (f x))"
  by auto

lemma haltOf_declared:
  assumes "length (Split (headerText H) ''('') = 2"
  shows "haltOf H U = (\<exists>t\<in>set (declaredTypes H). U t = None)"
proof -
  have left: "(\<exists>t\<in>set (checkedLeftTokens H). U t = None) =
      (2 < length (butlast (Split (Split (headerText H) ''('' ! 0) '' ''))
       \<and> (\<exists>t\<in>set (butlast (Split (Split (headerText H) ''('' ! 0) '' '')).
             U (TrimSpace t) = None))"
    using assms by (simp add: checkedLeftTokens_def Let_def)
  have right: "(\<exists>t\<in>set (checkedParameterTokens H). U t = None) =
      (\<exists>it\<in>set (enumerate 0 (Split (hd (Split (Split (headerText H) ''('' ! 1) '')'')) '' '')).
          fst it mod 2 = 0 \<and> U (TrimSpace (hd (Split (snd it) '',''))) = None)"
    using assms by (simp only: checkedParameterTokens_def Let_def bex_map_filter if_True simp_thms)
  have "haltOf H U =
      ((\<exists>t\<in>set (checkedLeftTokens H). U t = None)
       \<or> (\<exists>t\<in>set (checkedParameterTokens H). U t = None))"
    unfolding left right haltOf_def outGoroutines_def inGoroutines_def Let_def
    by (simp add: setHalt_map_checkParameter setHalt_map_checkNonparameter
        del: set_map)
  then show ?thesis
    by (simp add: declaredTypes_def bex_Un)
qed

lemma appended_checkNonparameter:
  "t \<in> set (appended (map (checkNonparameter U) ts)) \<Longrightarrow> U t = Some True"
proof (induction ts)
  case Nil
  then show ?case by simp
next
  case (Cons t0 ts)
  then show ?case
    by (cases "checkNonparameter U t0")
      (auto simp: checkNonparameter_def Let_def split: if_splits)
qed

lemma appended_checkParameter:
  "t \<in> set (appended (map (checkParameter U) its)) \<Longrightarrow> U t = Some True"
proof (induction its)
  case Nil
  then show ?case by simp
next
  case (Cons it its)
  then show ?case
    by (cases "checkParameter U it")
      (auto simp: checkParameter_def Let_def split: if_splits)
qed

text \<open>
  When the goroutines of a header append one after the other, every type of an
  accepted header is a key of the universe with value true.
\<close>

lemma parse_in_order_types_desired:
  assumes "parseJavaFuncHeader inOrderTypes H U = Inr (name, ins, outs, True)"
  shows "(\<forall>t\<in>set ins. U t = Some True) \<and> (\<forall>t\<in>set outs. U t = Some True)"
proof -
  from assms have "ins = appended (inGoroutines H U)" and "outs = appended (outGoroutines H U)"
    by (auto simp: parse_unfold inOrderTypes_def raceAppend_in_order split: if_splits)
  then show ?thesis
    by (auto simp: inGoroutines_def outGoroutines_def Let_def
        dest: appended_checkParameter appended_checkNonparameter split: if_splits)
qed

text \<open>
  C1 (the code differs from the claim). The two goroutines of the parameters append to
  \<open>in\<close> without a lock. When the second one loads the header after the first has
  written the new length and before the first has stored its element, it copies the
  empty slot into a larger array: the header is accepted with the input types
  \<open>["", int]\<close>, and the empty string is not a key of the universe.
\<close>

theorem racing_appends_leave_zero_value:
  "parseJavaFuncHeader \<lparr>outSteps = [], inSteps = [0, 0, 1, 1, 1, 0]\<rparr>
       ''public static int add(int a, int b) {'' modifierUniverse
     = Inr (''add'', ['''', ''int''], [''int''], True)
   \<and> modifierUniverse '''' = None"
  by code_simp

lemma declaredTypes_split:
  "t \<in> set (declaredTypes H) \<Longrightarrow> length (Split (headerText H) ''('') = 2"
  by (auto simp: declaredTypes_def checkedLeftTokens_def checkedParameterTokens_def Let_def
      split: if_splits)

lemma splitAcc_not_Nil: "splitAcc sep cur s \<noteq> []"
  by (induction sep cur s rule: splitAcc.induct) auto

lemma Split_not_Nil: "Split s sep \<noteq> []"
  by (simp add: Split_def splitAcc_not_Nil)

lemma stripLeading_Nil: "stripLeading ws [] = []"
proof -
  have "find (\<lambda>w. w \<noteq> [] \<and> prefix w []) ws = None"
    by (simp add: find_None_iff)
  then show ?thesis by simp
qed

lemma TrimSpace_Nil: "TrimSpace [] = []"
  by (simp add: TrimSpace_def stripLeading_Nil del: stripLeading.simps)

text \<open>
  C2, as amended. With the type universe \<open>{int: true, String: true, float: false,
  public: false, static: false}\<close>, parsing the header
  \<open>public static int add(int a, int b) {\<close> returns, for every interleaving of the
  goroutines, accepted = true with name \<open>add\<close>, output types \<open>[int]\<close> and input types
  that are not empty; the input types are \<open>[int, int]\<close> when the two goroutines of
  the parameters append one after the other.
\<close>

theorem scenario_A_with_modifiers:
  "(\<exists>ins. ins \<noteq> [] \<and>
       parseJavaFuncHeader s ''public static int add(int a, int b) {'' modifierUniverse
         = Inr (''add'', ins, [''int''], True))
   \<and> parseJavaFuncHeader inOrderTypes ''public static int add(int a, int b) {'' modifierUniverse
       = Inr (''add'', [''int'', ''int''], [''int''], True)"
proof -
  let ?H = "''public static int add(int a, int b) {''"
  have ne: "headerText ?H \<noteq> []" and semi: "last (headerText ?H) \<noteq> CHR '';''"
    and two: "length (Split (headerText ?H) ''('') = 2"
    and many: "\<not> length (butlast (Split (Split (headerText ?H) ''('' ! 0) '' '')) \<le> 2"
    and name: "last (Split (Split (headerText ?H) ''('' ! 0) '' '') = ''add''"
    and halt: "\<not> haltOf ?H modifierUniverse"
    and out: "appended (outGoroutines ?H modifierUniverse) = [''int'']"
    and ins: "appended (inGoroutines ?H modifierUniverse) = [''int'', ''int'']"
    by code_simp+
  have "parseJavaFuncHeader s ?H modifierUniverse
      = Inr (''add'', raceAppend [] (inSteps s) [''int'', ''int''], [''int''], True)"
    using ne semi two many halt
    by (simp only: parse_unfold [of s ?H] name out ins raceAppend_single if_False if_True
        simp_thms)
  moreover have "raceAppend [] (inSteps s) [''int'', ''int''] \<noteq> []"
    by (simp add: raceAppend_empty_iff)
  moreover have "parseJavaFuncHeader inOrderTypes ?H modifierUniverse
       = Inr (''add'', [''int'', ''int''], [''int''], True)"
    by code_simp
  ultimately show ?thesis by simp
qed

text \<open>
  C2, as stated, fails: with the universe \<open>{int: true, String: true, float: false}\<close>
  the tokens \<open>public\<close> and \<open>static\<close> are looked up like the return type, are not
  keys of the universe, and set \<open>halt\<close>.
\<close>

theorem scenario_A_rejected:
  "parseJavaFuncHeader inOrderTypes ''public static int add(int a, int b) {'' scenarioUniverse
     = Inr ([], [''int'', ''int''], [''int''], False)"
  by code_simp

text \<open>
  C6. For every header \<open>H\<close> and universe \<open>U\<close>: if any declared type token of \<open>H\<close>
  (a checked token of the left segment or a token at an even index of the parameter
  list) is absent from \<open>U\<close>, then \<open>parseJavaFuncHeader\<close> returns accepted = false,
  whatever the other tokens are.
\<close>

theorem invalid_type_rejects:
  "t \<in> set (declaredTypes H) \<Longrightarrow> U t = None \<Longrightarrow>
     \<exists>name ins outs. parseJavaFuncHeader s H U = Inr (name, ins, outs, False)"
proof -
  assume t: "t \<in> set (declaredTypes H)" and U: "U t = None"
  from t have two: "length (Split (headerText H) ''('') = 2"
    by (rule declaredTypes_split)
  then have ne: "headerText H \<noteq> []"
    by (auto simp: Split_def)
  from two t U have "haltOf H U"
    by (auto simp: haltOf_declared)
  with two ne show ?thesis
    by (simp add: parse_unfold)
qed

theorem invalid_type_rejects_witness:
  "''Unknown'' \<in> set (declaredTypes ''public static Unknown weird(int a) {'')
   \<and> modifierUniverse ''Unknown'' = None
   \<and> (\<exists>name ins outs.
         parseJavaFuncHeader inOrderTypes ''public static Unknown weird(int a) {'' modifierUniverse
           = Inr (name, ins, outs, False))"
proof -
  have a: "''Unknown'' \<in> set (declaredTypes ''public static Unknown weird(int a) {'')"
    by code_simp
  have b: "modifierUniverse ''Unknown'' = None"
    by code_simp
  from invalid_type_rejects
      [of "''Unknown''" "''public static Unknown weird(int a) {''" modifierUniverse inOrderTypes,
       OF a b] a b
  show ?thesis by simp
qed

text \<open>
  The token count. An accepted header has at least four tokens left of the
  parenthesis: the test \<open>len(nonparameters) > 2\<close> is made after the name is removed.
\<close>

lemma accepted_left:
  "parseJavaFuncHeader s H U = Inr (name, ins, outs, True) \<Longrightarrow>
    4 \<le> length (Split (hd (Split (headerText H) ''('')) '' '')"
  by (auto simp: parse_unfold hd_conv_nth Split_not_Nil split: if_splits)


text \<open>
  C7, as amended. For every header that splits at exactly one opening parenthesis, the
  token-count check requires at least four tokens in the left segment, split at single
  spaces (more than two tokens besides the function name): with three or fewer tokens
  the header is rejected as a non-function declaration; with four or more the check is
  passed, and a header that does not end in a semicolon is then accepted exactly when
  every declared type token is a key of the universe.
\<close>

theorem token_count_check:
  "length (Split (headerText H) ''('') = 2 \<Longrightarrow>
     (length (Split (Split (headerText H) ''('' ! 0) '' '') \<le> 3 \<longrightarrow>
        (\<exists>name ins outs. parseJavaFuncHeader s H U = Inr (name, ins, outs, False)))
     \<and> (4 \<le> length (Split (Split (headerText H) ''('' ! 0) '' '')
          \<and> last (headerText H) \<noteq> CHR '';'' \<longrightarrow>
        ((\<exists>name ins outs. parseJavaFuncHeader s H U = Inr (name, ins, outs, True))
           = (\<forall>t\<in>set (declaredTypes H). U t \<noteq> None)))"
proof -
  assume two: "length (Split (headerText H) ''('') = 2"
  then have ne: "headerText H \<noteq> []"
    by (auto simp: Split_def)
  have few: "\<exists>name ins outs. parseJavaFuncHeader s H U = Inr (name, ins, outs, False)"
    if "length (Split (Split (headerText H) ''('' ! 0) '' '') \<le> 3"
    using that two ne by (auto simp: parse_unfold)
  have many: "(\<exists>name ins outs. parseJavaFuncHeader s H U = Inr (name, ins, outs, True))
           = (\<forall>t\<in>set (declaredTypes H). U t \<noteq> None)"
    if "4 \<le> length (Split (Split (headerText H) ''('' ! 0) '' '')"
      and "last (headerText H) \<noteq> CHR '';''"
    using that two ne by (auto simp: parse_unfold haltOf_declared)
  from few many show ?thesis by (intro conjI impI) simp_all
qed

theorem token_count_check_witness:
  "length (Split (headerText ''public int add(int a, int b) {'') ''('') = 2
   \<and> length (Split (Split (headerText ''public int add(int a, int b) {'') ''('' ! 0) '' '') \<le> 3
   \<and> (\<exists>name ins outs.
         parseJavaFuncHeader inOrderTypes ''public int add(int a, int b) {'' modifierUniverse
           = Inr (name, ins, outs, False))
   \<and> length (Split (headerText ''public static int add(int a, int b) {'') ''('') = 2
   \<and> 4 \<le> length (Split (Split (headerText ''public static int add(int a, int b) {'') ''('' ! 0) '' '')
   \<and> last (headerText ''public static int add(int a, int b) {'') \<noteq> CHR '';''
   \<and> list_all (\<lambda>t. modifierUniverse t \<noteq> None)
         (declaredTypes ''public static int add(int a, int b) {'')
   \<and> (\<exists>name ins outs.
         parseJavaFuncHeader inOrderTypes ''public static int add(int a, int b) {'' modifierUniverse
           = Inr (name, ins, outs, True))"
proof -
  let ?H3 = "''public int add(int a, int b) {''"
  let ?H4 = "''public static int add(int a, int b) {''"
  have a: "length (Split (headerText ?H3) ''('') = 2"
    by code_simp
  have b: "length (Split (Split (headerText ?H3) ''('' ! 0) '' '') \<le> 3"
    by code_simp
  have c: "length (Split (headerText ?H4) ''('') = 2"
    by code_simp
  have d: "4 \<le> length (Split (Split (headerText ?H4) ''('' ! 0) '' '')"
    by code_simp
  have e: "last (headerText ?H4) \<noteq> CHR '';''"
    by code_simp
  have f: "list_all (\<lambda>t. modifierUniverse t \<noteq> None) (declaredTypes ?H4)"
    by code_simp
  have g: "\<exists>name ins outs. parseJavaFuncHeader inOrderTypes ?H3 modifierUniverse = Inr (name, ins, outs, False)"
    using token_count_check [OF a, of inOrderTypes modifierUniverse] b by simp
  have h: "\<exists>name ins outs. parseJavaFuncHeader inOrderTypes ?H4 modifierUniverse = Inr (name, ins, outs, True)"
    using token_count_check [OF c, of inOrderTypes modifierUniverse] d e f
    by (simp add: list_all_iff)
  from a b g c d e f h show ?thesis by (intro conjI)
qed

text \<open>
  C7, as stated, fails: a header whose left segment has exactly three tokens does not
  pass the token-count check. Its tokens are not looked up and the header is rejected,
  although every token is a key of the universe.
\<close>

theorem three_token_left_segment_rejected:
  "parseJavaFuncHeader inOrderTypes ''public int add(int a, int b) {'' modifierUniverse
     = Inr ([], [''int'', ''int''], [], False)"
  by code_simp

lemma splitAcc_cur:
  "splitAcc sep cur s = (cur @ hd (splitAcc sep [] s)) # tl (splitAcc sep [] s)"
proof (induction s arbitrary: cur rule: length_induct)
  case (1 s)
  show ?case
  proof (cases s)
    case Nil
    then show ?thesis by simp
  next
    case (Cons c cs)
    show ?thesis
    proof (cases "sep \<noteq> [] \<and> prefix sep (c # cs)")
      case True
      then show ?thesis using Cons by simp
    next
      case False
      have a: "splitAcc sep (cur @ [c]) cs = ((cur @ [c]) @ hd (splitAcc sep [] cs)) # tl (splitAcc sep [] cs)"
        using 1 [rule_format, of cs "cur @ [c]"] Cons by simp
      have b: "splitAcc sep [c] cs = ([c] @ hd (splitAcc sep [] cs)) # tl (splitAcc sep [] cs)"
        using 1 [rule_format, of cs "[c]"] Cons by simp
      show ?thesis using False by (simp add: Cons a b)
    qed
  qed
qed

lemma Split_Nil: "Split [] sep = [[]]"
  by (simp add: Split_def)

lemma splitAcc_char_notin:
  "c \<notin> set l \<Longrightarrow> splitAcc [c] cur (l @ c # rest) = (cur @ l) # splitAcc [c] [] rest"
  by (induction l arbitrary: cur) auto

lemma Split_char_notin:
  "c \<notin> set l \<Longrightarrow> Split (l @ c # rest) [c] = l # Split rest [c]"
  by (simp add: Split_def splitAcc_char_notin)

lemma hd_Split_Cons:
  "c \<noteq> d \<Longrightarrow> hd (Split (c # r) [d]) = c # hd (Split r [d])"
  using splitAcc_cur [of "[d]" "[c]" r] by (simp add: Split_def)

lemma Split_head_sep: "Split (c # r) [c] = [] # Split r [c]"
  by (simp add: Split_def)

lemma length_Split_one: "length (Split s sep) = Suc 0 \<Longrightarrow> Split s sep = [hd (Split s sep)]"
  by (cases "Split s sep") auto

text \<open>
  C9. For every universe that does not have the empty string as a key, every header
  whose parameter list is empty (the first opening parenthesis of the header text is
  directly followed by the closing one) is rejected: the empty parameter text splits
  into the single empty token at index 0, which is looked up and is absent.
\<close>

theorem empty_parameter_list_rejected:
  assumes U: "U [] = None"
    and H: "headerText H = l @ ''()'' @ r"
    and l: "CHR ''('' \<notin> set l"
  shows "\<exists>name ins outs. parseJavaFuncHeader s H U = Inr (name, ins, outs, False)"
proof (cases "length (Split (headerText H) ''('') = 2")
  case False
  with H show ?thesis by (auto simp: parse_unfold)
next
  case True
  have split: "Split (headerText H) ''('' = l # Split (CHR '')'' # r) ''(''"
    using l by (simp add: H Split_char_notin)
  with True have "length (Split (CHR '')'' # r) ''('') = Suc 0" by simp
  then have "Split (CHR '')'' # r) ''('' ! 0 = hd (Split (CHR '')'' # r) ''('')"
    by (simp add: hd_conv_nth Split_not_Nil)
  then have "Split (headerText H) ''('' ! Suc 0 = hd (Split (CHR '')'' # r) ''('')"
    using split by simp
  also have "\<dots> = CHR '')'' # hd (Split r ''('')"
    by (simp add: hd_Split_Cons)
  finally have right: "Split (headerText H) ''('' ! Suc 0 = CHR '')'' # hd (Split r ''('')" .
  have params: "Split (hd (Split (Split (headerText H) ''('' ! Suc 0) '')'')) '' '' = [[]]"
    using right by (simp add: Split_head_sep Split_Nil)
  have "[] \<in> set (declaredTypes H)"
    using True
    by (simp add: declaredTypes_def checkedParameterTokens_def Let_def params Split_Nil TrimSpace_Nil)
  then have "haltOf H U"
    using True U by (auto simp: haltOf_declared)
  with True H show ?thesis by (simp add: parse_unfold)
qed

theorem empty_parameter_list_rejected_witness:
  "modifierUniverse [] = None
   \<and> headerText ''public static int now() {'' = ''public static int now'' @ ''()'' @ '' {''
   \<and> CHR ''('' \<notin> set ''public static int now''
   \<and> (\<exists>name ins outs.
         parseJavaFuncHeader inOrderTypes ''public static int now() {'' modifierUniverse
           = Inr (name, ins, outs, False))"
proof -
  have a: "modifierUniverse [] = None"
    by code_simp
  have b: "headerText ''public static int now() {'' = ''public static int now'' @ ''()'' @ '' {''"
    by code_simp
  have c: "CHR ''('' \<notin> set ''public static int now''"
    by simp
  from empty_parameter_list_rejected
      [of modifierUniverse "''public static int now() {''" "''public static int now''" "'' {''"
          inOrderTypes, OF a b c] a b c
  show ?thesis by simp
qed

text \<open>
  The hypothesis of the theorem on the raw header: \<open>TrimSpace\<close> cuts a string into a
  prefix and a suffix of white space bytes and the trimmed text between them, so a
  header that has \<open>()\<close> after a text without parenthesis and without slash keeps this
  shape when the comment is cut off and the text is trimmed.
\<close>

lemma stripLeading_decomp:
  "\<exists>a. s = a @ stripLeading ws s \<and> set a \<subseteq> (\<Union>w\<in>set ws. set w)"
proof (induction ws s rule: stripLeading.induct)
  case (1 ws s)
  show ?case
  proof (cases "find (\<lambda>w. w \<noteq> [] \<and> prefix w s) ws")
    case None
    then show ?thesis by (intro exI [of _ "[]"]) simp
  next
    case (Some w)
    then have w: "w \<in> set ws" and p: "prefix w s"
      by (auto simp: find_Some_iff)
    from "1.IH" [OF Some] obtain a where
      a: "drop (length w) s = a @ stripLeading ws (drop (length w) s)"
      and sub: "set a \<subseteq> (\<Union>w\<in>set ws. set w)"
      by (elim exE conjE)
    from p have "s = w @ drop (length w) s"
      by (auto simp: prefix_def)
    with a have "s = (w @ a) @ stripLeading ws (drop (length w) s)"
      by simp
    moreover have "set (w @ a) \<subseteq> (\<Union>w\<in>set ws. set w)"
      using w sub by auto
    moreover have "stripLeading ws s = stripLeading ws (drop (length w) s)"
      using Some by simp
    ultimately show ?thesis
      by (intro exI [of _ "w @ a"]) simp
  qed
qed

lemma TrimSpace_decomp:
  "\<exists>a b. s = a @ TrimSpace s @ b \<and> set a \<subseteq> spaceBytes \<and> set b \<subseteq> spaceBytes"
proof -
  obtain a where a: "s = a @ stripLeading spaceEncodings s" and sa: "set a \<subseteq> spaceBytes"
    using stripLeading_decomp [of s spaceEncodings] by (auto simp: spaceBytes_def)
  define s1 where "s1 = stripLeading spaceEncodings s"
  obtain b where b: "rev s1 = b @ stripLeading (map rev spaceEncodings) (rev s1)"
    and sb: "set b \<subseteq> (\<Union>w\<in>set (map rev spaceEncodings). set w)"
    using stripLeading_decomp [of "rev s1" "map rev spaceEncodings"] by (elim exE conjE)
  have "s1 = rev (rev s1)" by simp
  also have "\<dots> = rev (b @ stripLeading (map rev spaceEncodings) (rev s1))"
    using b by simp
  also have "\<dots> = TrimSpace s @ rev b"
    by (simp add: TrimSpace_def s1_def)
  finally have "s1 = TrimSpace s @ rev b" .
  with a have "s = a @ TrimSpace s @ rev b" by (simp add: s1_def)
  moreover from sb have "set (rev b) \<subseteq> spaceBytes" by (auto simp: spaceBytes_def)
  ultimately show ?thesis using sa by (intro exI [of _ a] exI [of _ "rev b"]) simp
qed

lemma paren_not_space: "CHR ''('' \<notin> spaceBytes" "CHR '')'' \<notin> spaceBytes"
  by (simp_all add: spaceBytes_def spaceEncodings_def)

lemma TrimSpace_keeps:
  assumes "c \<in> set s" and "c \<notin> spaceBytes"
  shows "c \<in> set (TrimSpace s)"
proof -
  obtain a b where s: "s = a @ TrimSpace s @ b" and "set a \<subseteq> spaceBytes" "set b \<subseteq> spaceBytes"
    using TrimSpace_decomp [of s] by (elim exE conjE)
  with assms(2) have "c \<notin> set a" "c \<notin> set b" by auto
  moreover from assms(1) s have "c \<in> set (a @ TrimSpace s @ b)" by simp
  ultimately show ?thesis by simp
qed

lemma TrimSpace_subset: "set (TrimSpace s) \<subseteq> set s"
proof -
  obtain a b where s: "s = a @ TrimSpace s @ b"
    using TrimSpace_decomp [of s] by (elim exE conjE)
  have "set (TrimSpace s) \<subseteq> set (a @ TrimSpace s @ b)" by auto
  with s show ?thesis by simp
qed

lemma splitAcc_skip:
  "sep \<noteq> [] \<Longrightarrow> hd sep \<notin> set a \<Longrightarrow> splitAcc sep cur (a @ b) = splitAcc sep (cur @ a) b"
proof (induction a arbitrary: cur)
  case Nil
  then show ?case by simp
next
  case (Cons x a)
  then have "\<not> prefix sep (x # a @ b)"
    by (cases sep) auto
  with Cons show ?case by simp
qed

lemma hd_Split_skip:
  "sep \<noteq> [] \<Longrightarrow> hd sep \<notin> set a \<Longrightarrow> hd (Split (a @ b) sep) = a @ hd (Split b sep)"
  using splitAcc_skip [of sep a "[]" b] splitAcc_cur [of sep a b] by (simp add: Split_def)

lemma set_hd_splitAcc: "set (hd (splitAcc sep cur s)) \<subseteq> set cur \<union> set s"
  by (induction sep cur s rule: splitAcc.induct) auto

lemma set_hd_Split: "set (hd (Split s sep)) \<subseteq> set s"
  using set_hd_splitAcc [of sep "[]" s] by (simp add: Split_def)

lemma splitAcc_no_sep: "c \<notin> set s \<Longrightarrow> splitAcc [c] cur s = [cur @ s]"
  by (induction s arbitrary: cur) auto

lemma Split_no_sep: "c \<notin> set s \<Longrightarrow> Split s [c] = [s]"
  by (simp add: Split_def splitAcc_no_sep)

lemma append_eq_before:
  "xs @ ys = zs @ c # ws \<Longrightarrow> c \<notin> set xs \<Longrightarrow> \<exists>us. zs = xs @ us \<and> ys = us @ c # ws"
proof (induction xs arbitrary: zs)
  case Nil
  then show ?case by simp
next
  case (Cons x xs)
  then obtain zs' where zs: "zs = x # zs'" and eq: "xs @ ys = zs' @ c # ws"
    by (cases zs) auto
  from Cons.IH [OF eq] Cons.prems(2) obtain us where "zs' = xs @ us" "ys = us @ c # ws"
    by auto
  with zs show ?case by simp
qed

lemma append_eq_after:
  assumes "xs @ ys = ws @ c # zs" and "c \<notin> set ys"
  shows "\<exists>us. zs = us @ ys \<and> xs = ws @ c # us"
proof -
  from assms(1) have "rev (xs @ ys) = rev (ws @ c # zs)" by simp
  then have eq: "rev ys @ rev xs = rev zs @ c # rev ws" by simp
  from assms(2) have "c \<notin> set (rev ys)" by simp
  with eq have "\<exists>us. rev zs = rev ys @ us \<and> rev xs = us @ c # rev ws"
    by (rule append_eq_before)
  then obtain us where z: "rev zs = rev ys @ us" and x: "rev xs = us @ c # rev ws"
    by (elim exE conjE)
  from z have "rev (rev zs) = rev (rev ys @ us)" by simp
  then have "zs = rev us @ ys" by simp
  moreover from x have "rev (rev xs) = rev (us @ c # rev ws)" by simp
  then have "xs = ws @ c # rev us" by simp
  ultimately show ?thesis by (intro exI [of _ "rev us"]) simp
qed

lemma headerText_empty_parameter_list:
  assumes l: "CHR ''('' \<notin> set l" and slash: "CHR ''/'' \<notin> set l"
  shows "\<exists>l' r'. headerText (l @ ''()'' @ r) = l' @ ''()'' @ r' \<and> CHR ''('' \<notin> set l'"
proof -
  define r0 where "r0 = hd (Split r ''//'')"
  have "hd (Split ((l @ ''()'') @ r) ''//'') = (l @ ''()'') @ r0"
    unfolding r0_def using slash by (intro hd_Split_skip) simp_all
  then have h0: "hd (Split (l @ ''()'' @ r) ''//'') = l @ CHR ''('' # CHR '')'' # r0"
    by simp
  define T where "T = headerText (l @ ''()'' @ r)"
  obtain a b where dec: "l @ CHR ''('' # CHR '')'' # r0 = a @ T @ b"
    and a: "set a \<subseteq> spaceBytes" and b: "set b \<subseteq> spaceBytes"
    using TrimSpace_decomp [of "l @ CHR ''('' # CHR '')'' # r0"]
    unfolding T_def headerText_def h0 by (elim exE conjE)
  from a paren_not_space have "CHR ''('' \<notin> set a" by auto
  with dec obtain l' where l': "l = a @ l'" and rest: "T @ b = l' @ CHR ''('' # CHR '')'' # r0"
    using append_eq_before [of a "T @ b" l "CHR ''(''" "CHR '')'' # r0"] by auto
  from b paren_not_space have "CHR '')'' \<notin> set b" by auto
  moreover from rest have "T @ b = (l' @ [CHR ''('']) @ CHR '')'' # r0" by simp
  ultimately obtain r' where "T = (l' @ [CHR ''('']) @ CHR '')'' # r'"
    using append_eq_after [of T b "l' @ [CHR ''('']" "CHR '')''" r0] by auto
  then have "T = l' @ ''()'' @ r'" by simp
  moreover from l l' have "CHR ''('' \<notin> set l'" by simp
  ultimately show ?thesis unfolding T_def by (intro exI [of _ l'] exI [of _ r']) simp
qed


text \<open>
  C10. \<open>parseJavaFuncHeader\<close> panics (index out of range on the last character) for
  every header whose text before the first \<open>//\<close> trims to the empty string, empty or
  not; for every other header it returns. So the parser is total exactly on the
  headers with content that is neither comment nor white space.
\<close>

theorem parse_panics_iff_blank:
  "(headerText H = [] \<longrightarrow> parseJavaFuncHeader s H U = Inl IndexOutOfRange)
   \<and> (headerText H \<noteq> [] \<longrightarrow> (\<exists>r. parseJavaFuncHeader s H U = Inr r))"
  by (auto simp: parse_unfold)

theorem parse_panics_iff_blank_witness:
  "''   // only a comment'' \<noteq> []
   \<and> headerText ''   // only a comment'' = []
   \<and> parseJavaFuncHeader inOrderTypes ''   // only a comment'' modifierUniverse = Inl IndexOutOfRange
   \<and> headerText ''int f(int a) {'' \<noteq> []
   \<and> (\<exists>r. parseJavaFuncHeader inOrderTypes ''int f(int a) {'' modifierUniverse = Inr r)"
proof -
  have a: "headerText ''   // only a comment'' = []"
    by code_simp
  have b: "headerText ''int f(int a) {'' \<noteq> []"
    by code_simp
  from parse_panics_iff_blank [of "''   // only a comment''" inOrderTypes modifierUniverse]
    parse_panics_iff_blank [of "''int f(int a) {''" inOrderTypes modifierUniverse] a b
  show ?thesis by simp
qed

section \<open>The brace balancer\<close>

declare findOpen.simps [simp del] matchBraces.simps [simp del]

lemma findOpen_shift:
  "findOpen (pre @ s) (length pre + i) = map_option (\<lambda>m. length pre + m) (findOpen s i)"
proof (induction s i rule: findOpen.induct)
  case (1 arr m)
  show ?case
  proof (cases "m < length arr")
    case True
    then show ?thesis
      using 1 by (simp add: findOpen.simps [of "pre @ arr"] findOpen.simps [of arr m] nth_append)
  next
    case False
    then show ?thesis
      by (simp add: findOpen.simps [of "pre @ arr"] findOpen.simps [of arr m])
  qed
qed

lemma findOpen_Cons:
  "findOpen (c # cs) 0 = (if c = CHR 0x7B then Some 1 else map_option Suc (findOpen cs 0))"
  using findOpen_shift [of "[c]" cs 0]
  by (simp add: findOpen.simps [of "c # cs" 0])

lemma findOpen_gap:
  "CHR 0x7B \<notin> set gap \<Longrightarrow> findOpen (gap @ CHR 0x7B # rest) 0 = Some (Suc (length gap))"
  by (induction gap) (auto simp: findOpen_Cons)

lemma findOpen_none:
  "CHR 0x7B \<notin> set s \<Longrightarrow> findOpen s 0 = None"
  by (induction s) (auto simp: findOpen_Cons findOpen.simps [of "[]"])

lemma matchBraces_shift:
  "matchBraces (pre @ s) (length pre + i) c =
     (case matchBraces s i c of (m, c') \<Rightarrow> (length pre + m, c'))"
proof (induction s i c rule: matchBraces.induct)
  case (1 arr m count)
  show ?case
  proof (cases "m \<ge> length arr")
    case True
    then show ?thesis
      by (simp add: matchBraces.simps [of "pre @ arr"] matchBraces.simps [of arr m])
  next
    case False
    then show ?thesis
      using 1
      by (simp add: matchBraces.simps [of "pre @ arr" "length pre + m"]
          matchBraces.simps [of arr m] nth_append Let_def)
  qed
qed

lemma matchBraces_Nil: "matchBraces [] 0 c = (0, c)"
  by (simp add: matchBraces.simps [of "[]"])

lemma matchBraces_Cons:
  "matchBraces (x # xs) 0 c =
     (if braceStep x c = 0 then (0, 0)
      else (case matchBraces xs 0 (braceStep x c) of (m, c') \<Rightarrow> (Suc m, c')))"
  using matchBraces_shift [of "[x]" xs 0 "braceStep x c"]
  by (simp add: matchBraces.simps [of "x # xs" 0] braceStep_def Let_def)

text \<open>
  The slice \<open>arr[start:m+1]\<close> that \<open>balance\<close> returns is in range: the first loop
  ends after \<open>start\<close> and within the array, and the second loop ends with count zero
  only at an index of the array.
\<close>

lemma matchBraces_zero_in_range:
  "count \<noteq> 0 \<Longrightarrow> matchBraces arr m count = (m', 0) \<Longrightarrow> m \<le> m' \<and> m' < length arr"
proof (induction arr m count rule: matchBraces.induct)
  case (1 arr m count)
  show ?case
  proof (cases "m \<ge> length arr")
    case True
    with "1.prems" show ?thesis by (simp add: matchBraces.simps [of arr m])
  next
    case False
    define count2 where "count2 = braceStep (arr ! m) count"
    show ?thesis
    proof (cases "count2 = 0")
      case True
      with False "1.prems" show ?thesis
        by (simp add: matchBraces.simps [of arr m] count2_def braceStep_def Let_def)
    next
      case nz: False
      with False "1.prems" have rec: "matchBraces arr (Suc m) count2 = (m', 0)"
        by (simp add: matchBraces.simps [of arr m] count2_def braceStep_def Let_def)
      have "Suc m \<le> m' \<and> m' < length arr"
        using False nz rec
        by (intro "1.IH" [of "if arr ! m = CHR 0x7B then count + 1 else count" count2])
           (simp_all add: count2_def braceStep_def Let_def)
      then show ?thesis by simp
    qed
  qed
qed

lemma findOpen_bounds: "findOpen arr m = Some m1 \<Longrightarrow> m < m1 \<and> m1 \<le> length arr"
proof (induction arr m rule: findOpen.induct)
  case (1 arr m)
  show ?case
  proof (cases "m < length arr \<and> arr ! m \<noteq> CHR 0x7B")
    case True
    with "1.prems" have "findOpen arr (Suc m) = Some m1"
      by (simp add: findOpen.simps [of arr m])
    with True "1.IH" have "Suc m < m1 \<and> m1 \<le> length arr" by simp
    then show ?thesis by simp
  next
    case False
    with "1.prems" show ?thesis
      by (auto simp: findOpen.simps [of arr m] split: if_splits)
  qed
qed

lemma matchBraces_closes:
  "closesAtEnd d cs \<Longrightarrow> 1 \<le> d \<Longrightarrow> matchBraces (cs @ post) 0 (int d) = (length cs - 1, 0)"
proof (induction cs arbitrary: d)
  case Nil
  then show ?case by simp
next
  case (Cons c cs)
  show ?case
  proof (cases "c = CHR 0x7B")
    case True
    with Cons.prems have "closesAtEnd (Suc d) cs" by simp
    then have "matchBraces (cs @ post) 0 (int (Suc d)) = (length cs - 1, 0)"
      by (rule Cons.IH) simp
    then have m: "matchBraces (cs @ post) 0 (int d + 1) = (length cs - 1, 0)"
      by (simp add: add.commute)
    from \<open>closesAtEnd (Suc d) cs\<close> have "cs \<noteq> []" by auto
    then show ?thesis
      using True by (simp add: matchBraces_Cons braceStep_def m)
  next
    case False
    show ?thesis
    proof (cases "c = CHR 0x7D")
      case True
      show ?thesis
      proof (cases "d \<le> 1")
        case True
        with \<open>c = CHR 0x7D\<close> Cons.prems show ?thesis
          by (simp add: matchBraces_Cons braceStep_def)
      next
        case False
        with \<open>c = CHR 0x7D\<close> Cons.prems have cl: "closesAtEnd (d - 1) cs" by simp
        then have "matchBraces (cs @ post) 0 (int (d - 1)) = (length cs - 1, 0)"
          by (rule Cons.IH) (use False in simp)
        then have m: "matchBraces (cs @ post) 0 (int d - 1) = (length cs - 1, 0)"
          using False by (simp add: of_nat_diff)
        from cl have "cs \<noteq> []" by auto
        then show ?thesis
          using \<open>c = CHR 0x7D\<close> False by (simp add: matchBraces_Cons braceStep_def m)
      qed
    next
      case False
      with \<open>c \<noteq> CHR 0x7B\<close> Cons.prems have cl: "closesAtEnd d cs" by simp
      then have m: "matchBraces (cs @ post) 0 (int d) = (length cs - 1, 0)"
        by (rule Cons.IH) (use Cons.prems in simp)
      from cl have "cs \<noteq> []" by auto
      then show ?thesis
        using False \<open>c \<noteq> CHR 0x7B\<close> Cons.prems by (simp add: matchBraces_Cons braceStep_def m)
    qed
  qed
qed

lemma closesAtEnd_not_Nil: "closesAtEnd d cs \<Longrightarrow> cs \<noteq> []"
  by auto

lemma withoutNewlinesTabs_eq:
  "ReplaceAllEmpty (ReplaceAllEmpty s (CHR 0x0A)) (CHR 0x09) = withoutNewlinesTabs s"
  by (simp add: ReplaceAllEmpty_def withoutNewlinesTabs_def conj_commute)

lemma withoutNewlinesTabs_brace:
  "withoutNewlinesTabs (gap @ CHR 0x7B # cs) \<noteq> []"
  by (simp add: withoutNewlinesTabs_def filter_empty_conv)

lemma balance_closes:
  assumes gap: "CHR 0x7B \<notin> set gap" and cl: "closesAtEnd 1 cs"
  shows "balance (pre @ gap @ CHR 0x7B # cs @ post) (int (length pre))
           = Inr (withoutNewlinesTabs (gap @ CHR 0x7B # cs))"
proof -
  let ?arr = "pre @ gap @ CHR 0x7B # cs @ post"
  have "findOpen (pre @ (gap @ CHR 0x7B # cs @ post)) (length pre + 0)
          = map_option (\<lambda>m. length pre + m) (findOpen (gap @ CHR 0x7B # cs @ post) 0)"
    by (rule findOpen_shift)
  then have fo: "findOpen ?arr (length pre) = Some (Suc (length pre + length gap))"
    using gap by (simp add: findOpen_gap)
  have "matchBraces ((pre @ gap @ [CHR 0x7B]) @ (cs @ post)) (length (pre @ gap @ [CHR 0x7B]) + 0) 1
          = (case matchBraces (cs @ post) 0 1 of (m, c') \<Rightarrow> (length (pre @ gap @ [CHR 0x7B]) + m, c'))"
    by (rule matchBraces_shift)
  moreover have "matchBraces (cs @ post) 0 (int 1) = (length cs - 1, 0)"
    using cl by (rule matchBraces_closes) simp
  moreover from cl have "cs \<noteq> []" by (rule closesAtEnd_not_Nil)
  ultimately have mb: "matchBraces ?arr (Suc (length pre + length gap)) 1
          = (length pre + length gap + length cs, 0)"
    by (cases cs) simp_all
  have "take (Suc (length pre + length gap + length cs) - length pre)
               (drop (length pre) ?arr) = gap @ CHR 0x7B # cs"
    by simp
  then show ?thesis
    unfolding balance_def by (simp add: fo mb withoutNewlinesTabs_eq Let_def)
qed

lemma matchBraces_staysOpen:
  "staysOpen d cs \<Longrightarrow> 1 \<le> d \<Longrightarrow> snd (matchBraces cs 0 (int d)) \<noteq> 0"
proof (induction cs arbitrary: d)
  case Nil
  then show ?case by (simp add: matchBraces_Nil)
next
  case (Cons c cs)
  show ?case
  proof (cases "c = CHR 0x7B")
    case True
    with Cons.prems have "staysOpen (Suc d) cs" by simp
    then have "snd (matchBraces cs 0 (int (Suc d))) \<noteq> 0"
      by (rule Cons.IH) simp
    then have "snd (matchBraces cs 0 (int d + 1)) \<noteq> 0"
      by (simp add: add.commute)
    then show ?thesis
      using True by (auto simp: matchBraces_Cons braceStep_def split: prod.splits)
  next
    case False
    show ?thesis
    proof (cases "c = CHR 0x7D")
      case True
      with Cons.prems have d: "1 < d" and st: "staysOpen (d - 1) cs" by simp_all
      from st have "snd (matchBraces cs 0 (int (d - 1))) \<noteq> 0"
        by (rule Cons.IH) (use d in simp)
      then have "snd (matchBraces cs 0 (int d - 1)) \<noteq> 0"
        using d by (simp add: of_nat_diff)
      then show ?thesis
        using True d by (auto simp: matchBraces_Cons braceStep_def split: prod.splits)
    next
      case False
      with \<open>c \<noteq> CHR 0x7B\<close> Cons.prems have "staysOpen d cs" by simp
      then have "snd (matchBraces cs 0 (int d)) \<noteq> 0"
        by (rule Cons.IH) (use Cons.prems in simp)
      then show ?thesis
        using False \<open>c \<noteq> CHR 0x7B\<close> Cons.prems
        by (auto simp: matchBraces_Cons braceStep_def split: prod.splits)
    qed
  qed
qed

lemma balance_staysOpen:
  assumes gap: "CHR 0x7B \<notin> set gap" and st: "staysOpen 1 cs"
  shows "balance (pre @ gap @ CHR 0x7B # cs) (int (length pre)) = Inr []"
proof -
  let ?arr = "pre @ gap @ CHR 0x7B # cs"
  have "findOpen (pre @ (gap @ CHR 0x7B # cs)) (length pre + 0)
          = map_option (\<lambda>m. length pre + m) (findOpen (gap @ CHR 0x7B # cs) 0)"
    by (rule findOpen_shift)
  then have fo: "findOpen ?arr (length pre) = Some (Suc (length pre + length gap))"
    using gap by (simp add: findOpen_gap)
  have "matchBraces ((pre @ gap @ [CHR 0x7B]) @ cs) (length (pre @ gap @ [CHR 0x7B]) + 0) 1
          = (case matchBraces cs 0 1 of (m, c') \<Rightarrow> (length (pre @ gap @ [CHR 0x7B]) + m, c'))"
    by (rule matchBraces_shift)
  moreover have "snd (matchBraces cs 0 (int 1)) \<noteq> 0"
    using st by (rule matchBraces_staysOpen) simp
  ultimately have "snd (matchBraces ?arr (Suc (length pre + length gap)) 1) \<noteq> 0"
    by (simp split: prod.splits)
  then show ?thesis
    unfolding balance_def by (auto simp: fo Let_def split: prod.splits)
qed

lemma staysOpen_no_close:
  "CHR 0x7D \<notin> set post \<Longrightarrow> staysOpen d post"
  by (induction post arbitrary: d) auto

lemma closes_staysOpen_deeper:
  "closesAtEnd d cs \<Longrightarrow> CHR 0x7D \<notin> set post \<Longrightarrow> 1 \<le> d \<Longrightarrow> staysOpen (Suc d) (cs @ post)"
proof (induction cs arbitrary: d)
  case Nil
  then show ?case by simp
next
  case (Cons c cs)
  show ?case
  proof (cases "c = CHR 0x7B")
    case True
    with Cons.prems have "closesAtEnd (Suc d) cs" by simp
    then have "staysOpen (Suc (Suc d)) (cs @ post)"
      using Cons.prems(2) by (rule Cons.IH) simp
    then show ?thesis using True by simp
  next
    case False
    show ?thesis
    proof (cases "c = CHR 0x7D")
      case True
      show ?thesis
      proof (cases "d \<le> 1")
        case True
        with \<open>c = CHR 0x7D\<close> Cons.prems have "cs = []" by simp
        then show ?thesis
          using \<open>c = CHR 0x7D\<close> Cons.prems(2,3) by (simp add: staysOpen_no_close)
      next
        case False
        with \<open>c = CHR 0x7D\<close> Cons.prems have "closesAtEnd (d - 1) cs" by simp
        then have "staysOpen (Suc (d - 1)) (cs @ post)"
          using Cons.prems(2) by (rule Cons.IH) (use False in simp)
        then show ?thesis using \<open>c = CHR 0x7D\<close> False by simp
      qed
    next
      case False
      with \<open>c \<noteq> CHR 0x7B\<close> Cons.prems have "closesAtEnd d cs" by simp
      then have "staysOpen (Suc d) (cs @ post)"
        using Cons.prems(2,3) by (rule Cons.IH)
      then show ?thesis using False \<open>c \<noteq> CHR 0x7B\<close> by simp
    qed
  qed
qed

lemma insert_open_staysOpen:
  "closesAtEnd d cs \<Longrightarrow> i < length cs \<Longrightarrow> 1 \<le> d \<Longrightarrow> CHR 0x7D \<notin> set post \<Longrightarrow>
     staysOpen d (take i cs @ CHR 0x7B # drop i cs @ post)"
proof (induction cs arbitrary: d i)
  case Nil
  then show ?case by simp
next
  case (Cons c cs)
  show ?case
  proof (cases i)
    case 0
    have "staysOpen (Suc d) ((c # cs) @ post)"
      using Cons.prems(1,4,3) by (rule closes_staysOpen_deeper)
    then show ?thesis using 0 by simp
  next
    case (Suc j)
    with Cons.prems have j: "j < length cs" by simp
    show ?thesis
    proof (cases "c = CHR 0x7B")
      case True
      with Cons.prems have "closesAtEnd (Suc d) cs" by simp
      then have "staysOpen (Suc d) (take j cs @ CHR 0x7B # drop j cs @ post)"
        using j Cons.prems(4) by (intro Cons.IH) simp_all
      then show ?thesis using True Suc by simp
    next
      case False
      show ?thesis
      proof (cases "c = CHR 0x7D")
        case True
        from j have "cs \<noteq> []" by auto
        with True Cons.prems have d: "1 < d" and cl: "closesAtEnd (d - 1) cs"
          by (auto split: if_splits)
        from cl have "staysOpen (d - 1) (take j cs @ CHR 0x7B # drop j cs @ post)"
          using j Cons.prems(4) d by (intro Cons.IH) simp_all
        then show ?thesis using True Suc d by simp
      next
        case False
        with \<open>c \<noteq> CHR 0x7B\<close> Cons.prems have "closesAtEnd d cs" by simp
        then have "staysOpen d (take j cs @ CHR 0x7B # drop j cs @ post)"
          using j Cons.prems(3,4) by (intro Cons.IH) simp_all
        then show ?thesis using False \<open>c \<noteq> CHR 0x7B\<close> Suc by simp
      qed
    qed
  qed
qed

lemma closes_lower:
  "closesAtEnd d cs \<Longrightarrow> 1 \<le> d' \<Longrightarrow> d' \<le> d \<Longrightarrow> \<exists>p rest. cs = p @ rest \<and> closesAtEnd d' p"
proof (induction cs arbitrary: d d')
  case Nil
  then show ?case by simp
next
  case (Cons c cs)
  show ?case
  proof (cases "c = CHR 0x7B")
    case True
    with Cons.prems have "closesAtEnd (Suc d) cs" by simp
    then have "\<exists>p rest. cs = p @ rest \<and> closesAtEnd (Suc d') p"
      by (rule Cons.IH) (use Cons.prems in simp_all)
    then obtain p rest where "cs = p @ rest" and "closesAtEnd (Suc d') p"
      by (elim exE conjE)
    then have "c # cs = (c # p) @ rest \<and> closesAtEnd d' (c # p)"
      using True by simp
    then show ?thesis by (intro exI [of _ "c # p"] exI [of _ rest])
  next
    case False
    show ?thesis
    proof (cases "c = CHR 0x7D")
      case True
      show ?thesis
      proof (cases "d' \<le> 1")
        case True
        with Cons.prems have "d' = 1" by simp
        then have "c # cs = [c] @ cs \<and> closesAtEnd d' [c]"
          using \<open>c = CHR 0x7D\<close> by simp
        then show ?thesis by (intro exI [of _ "[c]"] exI [of _ cs])
      next
        case False
        with Cons.prems have "\<not> d \<le> 1" by simp
        with \<open>c = CHR 0x7D\<close> Cons.prems have "closesAtEnd (d - 1) cs" by simp
        then have "\<exists>p rest. cs = p @ rest \<and> closesAtEnd (d' - 1) p"
          by (rule Cons.IH) (use False Cons.prems in simp_all)
        then obtain p rest where "cs = p @ rest" and "closesAtEnd (d' - 1) p"
          by (elim exE conjE)
        then have "c # cs = (c # p) @ rest \<and> closesAtEnd d' (c # p)"
          using \<open>c = CHR 0x7D\<close> False by simp
        then show ?thesis by (intro exI [of _ "c # p"] exI [of _ rest])
      qed
    next
      case False
      with \<open>c \<noteq> CHR 0x7B\<close> Cons.prems have "closesAtEnd d cs" by simp
      then have "\<exists>p rest. cs = p @ rest \<and> closesAtEnd d' p"
        by (rule Cons.IH) (use Cons.prems in simp_all)
      then obtain p rest where "cs = p @ rest" and "closesAtEnd d' p"
        by (elim exE conjE)
      then have "c # cs = (c # p) @ rest \<and> closesAtEnd d' (c # p)"
        using False \<open>c \<noteq> CHR 0x7B\<close> by simp
      then show ?thesis by (intro exI [of _ "c # p"] exI [of _ rest])
    qed
  qed
qed

lemma insert_close_closes:
  "closesAtEnd d cs \<Longrightarrow> 1 \<le> d \<Longrightarrow> i \<le> length cs \<Longrightarrow>
     \<exists>p rest. take i cs @ CHR 0x7D # drop i cs = p @ rest \<and> closesAtEnd d p"
proof (induction cs arbitrary: d i)
  case Nil
  then show ?case by simp
next
  case (Cons c cs)
  show ?case
  proof (cases i)
    case 0
    show ?thesis
    proof (cases "d \<le> 1")
      case True
      with Cons.prems have "d = 1" by simp
      then show ?thesis
        unfolding 0 by (intro exI [of _ "[CHR 0x7D]"] exI [of _ "c # cs"]) simp
    next
      case False
      have "\<exists>p rest. c # cs = p @ rest \<and> closesAtEnd (d - 1) p"
        using Cons.prems(1) by (rule closes_lower) (use False in simp_all)
      then obtain p rest where pr: "c # cs = p @ rest" and cl: "closesAtEnd (d - 1) p"
        by (elim exE conjE)
      from cl have "closesAtEnd d (CHR 0x7D # p)"
        using False by simp
      then show ?thesis
        unfolding 0 using pr
        by (intro exI [of _ "CHR 0x7D # p"] exI [of _ rest]) (simp del: closesAtEnd.simps)
    qed
  next
    case (Suc j)
    with Cons.prems have j: "j \<le> length cs" by simp
    have step: "\<exists>p rest. take j cs @ CHR 0x7D # drop j cs = p @ rest \<and> closesAtEnd d (c # p)"
    proof (cases "c = CHR 0x7B")
      case True
      with Cons.prems have "closesAtEnd (Suc d) cs" by simp
      then have "\<exists>p rest. take j cs @ CHR 0x7D # drop j cs = p @ rest \<and> closesAtEnd (Suc d) p"
        using j by (intro Cons.IH) simp_all
      then show ?thesis using True by simp
    next
      case False
      show ?thesis
      proof (cases "c = CHR 0x7D")
        case True
        show ?thesis
        proof (cases "d \<le> 1")
          case True
          with \<open>c = CHR 0x7D\<close> Cons.prems have "d = 1" "cs = []" by simp_all
          then show ?thesis
            using \<open>c = CHR 0x7D\<close>
            by (intro exI [of _ "[]"] exI [of _ "[CHR 0x7D]"]) simp
        next
          case False
          with \<open>c = CHR 0x7D\<close> Cons.prems have "closesAtEnd (d - 1) cs" by simp
          then have "\<exists>p rest. take j cs @ CHR 0x7D # drop j cs = p @ rest \<and> closesAtEnd (d - 1) p"
            using j False by (intro Cons.IH) simp_all
          then obtain p rest where pr: "take j cs @ CHR 0x7D # drop j cs = p @ rest"
            and cl: "closesAtEnd (d - 1) p" by (elim exE conjE)
          from cl have "p \<noteq> []" by auto
          with cl have "closesAtEnd d (c # p)"
            using \<open>c = CHR 0x7D\<close> False by simp
          with pr show ?thesis
            by (intro exI [of _ p] exI [of _ rest]) (simp del: closesAtEnd.simps)
        qed
      next
        case False
        with \<open>c \<noteq> CHR 0x7B\<close> Cons.prems have "closesAtEnd d cs" by simp
        then have "\<exists>p rest. take j cs @ CHR 0x7D # drop j cs = p @ rest \<and> closesAtEnd d p"
          using j Cons.prems(2) by (intro Cons.IH) simp_all
        then show ?thesis using False \<open>c \<noteq> CHR 0x7B\<close> by simp
      qed
    qed
    then obtain p rest where pr: "take j cs @ CHR 0x7D # drop j cs = p @ rest"
      and cl: "closesAtEnd d (c # p)" by (elim exE conjE)
    show ?thesis
      unfolding Suc using pr cl
      by (intro exI [of _ "c # p"] exI [of _ rest]) (simp del: closesAtEnd.simps)
  qed
qed

lemma balancedText_skip:
  "balancedText a \<Longrightarrow> 1 \<le> d \<Longrightarrow> rest \<noteq> [] \<Longrightarrow> closesAtEnd d (a @ rest) = closesAtEnd d rest"
proof (induction a arbitrary: d rest rule: balancedText.induct)
  case empty
  then show ?case by simp
next
  case (other c s)
  then show ?case by simp
next
  case (nested a b)
  have "closesAtEnd d ((CHR 0x7B # a @ CHR 0x7D # b) @ rest)
          = closesAtEnd (Suc d) (a @ (CHR 0x7D # b @ rest))"
    by simp
  also have "\<dots> = closesAtEnd (Suc d) (CHR 0x7D # b @ rest)"
    by (rule nested.IH(1)) simp_all
  also have "\<dots> = closesAtEnd d (b @ rest)"
    using nested.prems by simp
  also have "\<dots> = closesAtEnd d rest"
    using nested.prems by (rule nested.IH(2))
  finally show ?case .
qed

lemma balancedText_wellFormedBlock:
  "balancedText a \<Longrightarrow> wellFormedBlock (CHR 0x7B # a @ [CHR 0x7D])"
  using balancedText_skip [of a 1 "[CHR 0x7D]"] by (simp add: wellFormedBlock_def)

text \<open>
  C5, as amended. For every well-formed block \<open>B\<close> in a buffer and every offset \<open>k\<close>
  at or before the first brace of \<open>B\<close> with no opening brace between \<open>k\<close> and \<open>B\<close>
  (\<open>gap\<close> is the text between them), \<open>balance\<close> succeeds and returns the bytes from
  \<open>k\<close> to the closing brace of \<open>B\<close>, without line feeds and tabs; this is \<open>B\<close>
  itself when \<open>k\<close> is at its first brace. With one more opening brace inserted
  before the last byte of \<open>B\<close> and no closing brace after the block, \<open>balance\<close> fails
  with the empty string. With one more closing brace inserted anywhere, \<open>balance\<close>
  does not fail: it returns the non-empty text up to the first byte at which the braces
  balance.
\<close>

theorem balance_round_trip:
  assumes wf: "wellFormedBlock B" and gap: "CHR 0x7B \<notin> set gap"
  shows "balance (pre @ gap @ B @ post) (int (length pre)) = Inr (withoutNewlinesTabs (gap @ B))
       \<and> withoutNewlinesTabs (gap @ B) \<noteq> []
       \<and> (\<forall>i<length B. CHR 0x7D \<notin> set post \<longrightarrow>
            balance (pre @ gap @ take i B @ CHR 0x7B # drop i B @ post) (int (length pre)) = Inr [])
       \<and> (\<forall>i\<le>length B. \<exists>s. s \<noteq> [] \<and>
            balance (pre @ gap @ take i B @ CHR 0x7D # drop i B @ post) (int (length pre)) = Inr s)"
proof -
  from wf obtain cs where B: "B = CHR 0x7B # cs" and cl: "closesAtEnd 1 cs"
    by (auto simp: wellFormedBlock_def split: list.splits)
  have a: "balance (pre @ gap @ B @ post) (int (length pre)) = Inr (withoutNewlinesTabs (gap @ B))"
    using balance_closes [OF gap cl, of pre post] by (simp add: B)
  have b: "withoutNewlinesTabs (gap @ B) \<noteq> []"
    by (simp add: B withoutNewlinesTabs_brace)
  have c: "balance (pre @ gap @ take i B @ CHR 0x7B # drop i B @ post) (int (length pre)) = Inr []"
    if i: "i < length B" and post: "CHR 0x7D \<notin> set post" for i
  proof (cases i)
    case 0
    have "staysOpen 1 (CHR 0x7B # cs @ post)"
      using closes_staysOpen_deeper [OF cl post] by simp
    then show ?thesis
      using balance_staysOpen [OF gap, of "CHR 0x7B # cs @ post" pre] 0 by (simp add: B)
  next
    case (Suc j)
    with i have "j < length cs" by (simp add: B)
    then have "staysOpen 1 (take j cs @ CHR 0x7B # drop j cs @ post)"
      using insert_open_staysOpen [OF cl _ _ post] by simp
    then show ?thesis
      using balance_staysOpen [OF gap, of "take j cs @ CHR 0x7B # drop j cs @ post" pre] Suc
      by (simp add: B)
  qed
  have d: "\<exists>s. s \<noteq> [] \<and>
      balance (pre @ gap @ take i B @ CHR 0x7D # drop i B @ post) (int (length pre)) = Inr s"
    if i: "i \<le> length B" for i
  proof (cases i)
    case 0
    have "CHR 0x7B \<notin> set (gap @ [CHR 0x7D])" using gap by simp
    from balance_closes [OF this cl, of pre post]
    have "balance (pre @ gap @ CHR 0x7D # B @ post) (int (length pre))
            = Inr (withoutNewlinesTabs ((gap @ [CHR 0x7D]) @ CHR 0x7B # cs))"
      by (simp add: B)
    moreover have "withoutNewlinesTabs ((gap @ [CHR 0x7D]) @ CHR 0x7B # cs) \<noteq> []"
      by (rule withoutNewlinesTabs_brace)
    ultimately show ?thesis using 0 by simp
  next
    case (Suc j)
    with i have "j \<le> length cs" by (simp add: B)
    with cl have "\<exists>p rest. take j cs @ CHR 0x7D # drop j cs = p @ rest \<and> closesAtEnd 1 p"
      by (intro insert_close_closes) simp_all
    then obtain p rest where pr: "take j cs @ CHR 0x7D # drop j cs = p @ rest"
      and clp: "closesAtEnd 1 p" by (elim exE conjE)
    have "take i B @ CHR 0x7D # drop i B @ post = CHR 0x7B # (take j cs @ CHR 0x7D # drop j cs) @ post"
      using Suc by (simp add: B)
    then have eq: "pre @ gap @ take i B @ CHR 0x7D # drop i B @ post
            = pre @ gap @ CHR 0x7B # p @ (rest @ post)"
      by (simp only: pr append_assoc)
    show ?thesis
      unfolding eq
      using balance_closes [OF gap clp, of pre "rest @ post"] withoutNewlinesTabs_brace [of gap p]
      by (intro exI [of _ "withoutNewlinesTabs (gap @ CHR 0x7B # p)"]) simp
  qed
  from a b c d show ?thesis by (intro conjI allI impI)
qed


theorem balance_round_trip_witness:
  "wellFormedBlock (CHR 0x7B # CHR 0x0A # CHR 0x09 # ''y}'')
   \<and> CHR 0x7B \<notin> set ''f() ''
   \<and> balance (''x;'' @ ''f() '' @ (CHR 0x7B # CHR 0x0A # CHR 0x09 # ''y}'') @ ''z'') 2
       = Inr ''f() {y}''
   \<and> balance (''x;'' @ ''f() '' @ take 1 (CHR 0x7B # CHR 0x0A # CHR 0x09 # ''y}'')
                @ CHR 0x7B # drop 1 (CHR 0x7B # CHR 0x0A # CHR 0x09 # ''y}'') @ ''z'') 2
       = Inr []
   \<and> (\<exists>s. s \<noteq> [] \<and>
         balance (''x;'' @ ''f() '' @ take 2 (CHR 0x7B # CHR 0x0A # CHR 0x09 # ''y}'')
                  @ CHR 0x7D # drop 2 (CHR 0x7B # CHR 0x0A # CHR 0x09 # ''y}'') @ ''z'') 2
           = Inr s)"
proof -
  let ?B = "CHR 0x7B # CHR 0x0A # CHR 0x09 # ''y}''"
  have wf: "wellFormedBlock ?B"
    by (simp add: wellFormedBlock_def)
  have gap: "CHR 0x7B \<notin> set ''f() ''"
    by simp
  note t = balance_round_trip [OF wf gap, of "''x;''" "''z''"]
  have a: "balance (''x;'' @ ''f() '' @ ?B @ ''z'') 2 = Inr ''f() {y}''"
    using t [THEN conjunct1] by (simp add: withoutNewlinesTabs_def)
  have b: "balance (''x;'' @ ''f() '' @ take 1 ?B @ CHR 0x7B # drop 1 ?B @ ''z'') 2 = Inr []"
    using t [THEN conjunct2, THEN conjunct2, THEN conjunct1, rule_format, of 1] by simp
  have c: "\<exists>s. s \<noteq> [] \<and>
      balance (''x;'' @ ''f() '' @ take 2 ?B @ CHR 0x7D # drop 2 ?B @ ''z'') 2 = Inr s"
    using t [THEN conjunct2, THEN conjunct2, THEN conjunct2, rule_format, of 2] by simp
  from wf gap a b c show ?thesis by (intro conjI)
qed

text \<open>
  C5, as stated, fails. A block followed by one unmatched closing brace does not make
  \<open>balance\<close> fail: the scan stops at the first closing brace that balances. And with
  the offset before the first brace of the block, the result starts at the offset, not
  at the block.
\<close>

theorem balance_extra_closing_brace_succeeds:
  "balance ''{a}}'' 0 = Inr ''{a}'' \<and> balance ''f(){a}'' 0 = Inr ''f(){a}''"
  by code_simp

section \<open>The file aggregator\<close>

lemma survives_interleaving:
  "(case parseJavaFuncHeader s h U of
      Inl e \<Rightarrow> False
    | Inr (fname, ins, outs, ok) \<Rightarrow> ok \<and> length ins > 0 \<and> length outs > 0) = survives U h"
  by (simp add: survives_def parse_unfold raceAppend_empty_iff)

lemma headerTask_panics_iff:
  "(\<exists>e. headerTask s U h = Inl e) = (headerText h = [])"
  by (auto simp: headerTask_def parse_unfold)

lemma headerTask_blank: "headerText h = [] \<Longrightarrow> headerTask s U h = Inl IndexOutOfRange"
  by (simp add: headerTask_def parse_unfold)

lemma headerTask_appends_iff:
  assumes "headerTask s U h = Inr eff"
  shows "(appended [eff] \<noteq> []) = survives U h"
proof -
  from assms obtain fname ins outs ok where
    p: "parseJavaFuncHeader s h U = Inr (fname, ins, outs, ok)"
    by (auto simp: headerTask_def split: sum.splits)
  with survives_interleaving [of s h U]
  have sv: "survives U h = (ok \<and> length ins > 0 \<and> length outs > 0)"
    by simp
  from assms p show ?thesis
    by (auto simp: headerTask_def sv split: if_splits)
qed

lemma appended_Cons_empty:
  "(appended (eff # effs) \<noteq> []) = (appended [eff] \<noteq> [] \<or> appended effs \<noteq> [])"
  by (cases eff) simp_all

lemma headerTasks_appended:
  "headerTasks ts U i hs = Inr effs \<Longrightarrow> (appended effs \<noteq> []) = (\<exists>h\<in>set hs. survives U h)"
proof (induction hs arbitrary: i effs)
  case Nil
  then show ?case by simp
next
  case (Cons h hs)
  from Cons.prems obtain eff effs' where h: "headerTask (ts i) U h = Inr eff"
    and rest: "headerTasks ts U (Suc i) hs = Inr effs'" and effs: "effs = eff # effs'"
    by (auto split: sum.splits)
  have "(appended effs \<noteq> []) = (appended [eff] \<noteq> [] \<or> appended effs' \<noteq> [])"
    unfolding effs by (rule appended_Cons_empty)
  also have "\<dots> = (survives U h \<or> (\<exists>h\<in>set hs. survives U h))"
    using Cons.IH [OF rest] headerTask_appends_iff [OF h] by (simp only:)
  finally show ?case by simp
qed

lemma headerTasks_total:
  "\<forall>h\<in>set hs. headerText h \<noteq> [] \<Longrightarrow> \<exists>effs. headerTasks ts U i hs = Inr effs"
proof (induction hs arbitrary: i)
  case Nil
  show ?case by simp
next
  case (Cons h hs)
  then have "headerText h \<noteq> []" by simp
  then have "\<not> (\<exists>e. headerTask (ts i) U h = Inl e)"
    by (simp only: headerTask_panics_iff) simp
  then obtain eff where h: "headerTask (ts i) U h = Inr eff"
    by (cases "headerTask (ts i) U h") auto
  from Cons obtain effs where "headerTasks ts U (Suc i) hs = Inr effs"
    by (meson list.set_intros(2))
  with h show ?case by simp
qed

lemma headerTasks_blank:
  "\<exists>h\<in>set hs. headerText h = [] \<Longrightarrow> headerTasks ts U i hs = Inl IndexOutOfRange"
proof (induction hs arbitrary: i)
  case Nil
  then show ?case by simp
next
  case (Cons h hs)
  show ?case
  proof (cases "headerText h = []")
    case True
    then show ?thesis by (simp add: headerTask_blank)
  next
    case False
    then have "\<not> (\<exists>e. headerTask (ts i) U h = Inl e)"
      by (simp only: headerTask_panics_iff) simp
    then obtain eff where h: "headerTask (ts i) U h = Inr eff"
      by (cases "headerTask (ts i) U h") auto
    from False Cons.prems have "\<exists>h\<in>set hs. headerText h = []" by simp
    then have "headerTasks ts U (Suc i) hs = Inl IndexOutOfRange" by (rule Cons.IH)
    with h show ?thesis by simp
  qed
qed

text \<open>
  C8, as amended. For every path, universe and interleaving of the goroutines: when
  \<open>ParseFile\<close> returns, it returns ok = true exactly when at least one header survived
  the filter, and with ok = false the zero \<open>File\<close>; and when no header survives and no
  header line is blank (the text before its first \<open>//\<close> does not trim to the empty
  string), \<open>ParseFile\<close> does return, with ok = false and the zero \<open>File\<close>.
\<close>

theorem ParseFile_reports_survivors:
  "(\<forall>f ok. ParseFile sched ctagLines disk path U = Inr (f, ok) \<longrightarrow>
       ok = (\<exists>l\<in>set ctagLines. survives U (l @ [CHR 0x0A])) \<and> (\<not> ok \<longrightarrow> f = zeroFile))
   \<and> ((\<forall>l\<in>set ctagLines. headerText (l @ [CHR 0x0A]) \<noteq> [])
        \<and> \<not> (\<exists>l\<in>set ctagLines. survives U (l @ [CHR 0x0A])) \<longrightarrow>
       ParseFile sched ctagLines disk path U = Inr (zeroFile, False))"
proof -
  define hs where "hs = map (\<lambda>l. l @ [CHR 0x0A]) ctagLines"
  have sv: "(\<exists>h\<in>set hs. survives U h) = (\<exists>l\<in>set ctagLines. survives U (l @ [CHR 0x0A]))"
    by (simp add: hs_def)
  have ret: "ok = (\<exists>l\<in>set ctagLines. survives U (l @ [CHR 0x0A])) \<and> (\<not> ok \<longrightarrow> f = zeroFile)"
    if pf: "ParseFile sched ctagLines disk path U = Inr (f, ok)" for f ok
  proof -
    from pf obtain effs where effs: "headerTasks (typeSteps sched) U 0 hs = Inr effs"
      by (auto simp: ParseFile_def Let_def hs_def split: sum.splits)
    have ne: "(raceAppend zeroFunction (headerSteps sched) (appended effs) \<noteq> [])
        = (\<exists>l\<in>set ctagLines. survives U (l @ [CHR 0x0A]))"
      using headerTasks_appended [OF effs] by (simp add: raceAppend_empty_iff sv)
    from pf effs have ok: "ok = (raceAppend zeroFunction (headerSteps sched) (appended effs) \<noteq> [])"
      and zero: "\<not> ok \<longrightarrow> f = zeroFile"
      by (auto simp: ParseFile_def Let_def hs_def [symmetric] split: sum.splits if_splits)
    from ok ne have "ok = (\<exists>l\<in>set ctagLines. survives U (l @ [CHR 0x0A]))"
      by (simp only:)
    then show ?thesis using zero by (rule conjI)
  qed
  have tot: "ParseFile sched ctagLines disk path U = Inr (zeroFile, False)"
    if nb: "\<forall>l\<in>set ctagLines. headerText (l @ [CHR 0x0A]) \<noteq> []"
      and none: "\<not> (\<exists>l\<in>set ctagLines. survives U (l @ [CHR 0x0A]))"
  proof -
    from nb have "\<forall>h\<in>set hs. headerText h \<noteq> []" by (simp add: hs_def)
    then have "\<exists>effs. headerTasks (typeSteps sched) U 0 hs = Inr effs"
      by (rule headerTasks_total)
    then obtain effs where effs: "headerTasks (typeSteps sched) U 0 hs = Inr effs"
      by (elim exE)
    from headerTasks_appended [OF effs] none have "appended effs = []"
      by (simp add: sv)
    then have "raceAppend zeroFunction (headerSteps sched) (appended effs) = []"
      by (simp add: raceAppend_Nil)
    with effs show ?thesis
      by (simp add: ParseFile_def Let_def hs_def [symmetric])
  qed
  have first: "\<forall>f ok. ParseFile sched ctagLines disk path U = Inr (f, ok) \<longrightarrow>
       ok = (\<exists>l\<in>set ctagLines. survives U (l @ [CHR 0x0A])) \<and> (\<not> ok \<longrightarrow> f = zeroFile)"
    using ret by (intro allI impI)
  have second: "(\<forall>l\<in>set ctagLines. headerText (l @ [CHR 0x0A]) \<noteq> [])
        \<and> \<not> (\<exists>l\<in>set ctagLines. survives U (l @ [CHR 0x0A])) \<longrightarrow>
       ParseFile sched ctagLines disk path U = Inr (zeroFile, False)"
  proof (intro impI)
    assume h: "(\<forall>l\<in>set ctagLines. headerText (l @ [CHR 0x0A]) \<noteq> [])
        \<and> \<not> (\<exists>l\<in>set ctagLines. survives U (l @ [CHR 0x0A]))"
    from tot [OF h [THEN conjunct1] h [THEN conjunct2]]
    show "ParseFile sched ctagLines disk path U = Inr (zeroFile, False)" .
  qed
  from first second show ?thesis by (rule conjI)
qed

theorem ParseFile_reports_survivors_witness:
  "ParseFile inOrder [''    public static int f(int a) {''] None ''src/X.java'' modifierUniverse
       = Inr (\<lparr>File_Id = hash ''src/X.java'', File_Name = ''X.java'', Path = ''src/X.java'',
               Funcs = [functionF]\<rparr>, True)
   \<and> survives modifierUniverse (''    public static int f(int a) {'' @ [CHR 0x0A])
   \<and> headerText (''    void helper();'' @ [CHR 0x0A]) \<noteq> []
   \<and> \<not> survives modifierUniverse (''    void helper();'' @ [CHR 0x0A])
   \<and> ParseFile inOrder [''    void helper();''] None ''src/X.java'' modifierUniverse
       = Inr (zeroFile, False)"
proof -
  have a: "ParseFile inOrder [''    public static int f(int a) {''] None ''src/X.java''
        modifierUniverse
       = Inr (\<lparr>File_Id = hash ''src/X.java'', File_Name = ''X.java'', Path = ''src/X.java'',
               Funcs = [functionF]\<rparr>, True)"
    by code_simp
  have b: "headerText (''    void helper();'' @ [CHR 0x0A]) \<noteq> []"
    by code_simp
  have c: "\<not> survives modifierUniverse (''    void helper();'' @ [CHR 0x0A])"
    by code_simp
  note t1 = ParseFile_reports_survivors
      [of inOrder "[''    public static int f(int a) {'']" None "''src/X.java''" modifierUniverse]
  note t2 = ParseFile_reports_survivors
      [of inOrder "[''    void helper();'']" None "''src/X.java''" modifierUniverse]
  from t1 [THEN conjunct1, rule_format, OF a]
  have d: "survives modifierUniverse (''    public static int f(int a) {'' @ [CHR 0x0A])"
    by simp
  from b c have "(\<forall>l\<in>set [''    void helper();'']. headerText (l @ [CHR 0x0A]) \<noteq> [])
      \<and> \<not> (\<exists>l\<in>set [''    void helper();'']. survives modifierUniverse (l @ [CHR 0x0A]))"
    by simp
  with t2 [THEN conjunct2]
  have e: "ParseFile inOrder [''    void helper();''] None ''src/X.java''
      modifierUniverse = Inr (zeroFile, False)"
    by (rule mp)
  from a d b c e show ?thesis by (intro conjI)
qed

text \<open>
  C8, as stated, fails: with a blank header line, as the pipeline prints for a short
  line of ctags, no header survives and no failure is reported; the parser panics on
  the blank line and the process ends.
\<close>

theorem blank_line_without_survivor_panics:
  "\<not> survives modifierUniverse (''    '' @ [CHR 0x0A])
   \<and> ParseFile inOrder [''    ''] None ''src/X.java'' modifierUniverse = Inl IndexOutOfRange"
  by code_simp

text \<open>The same for every interleaving and next to any other header lines.\<close>

lemma blank_header_line_panics:
  "\<exists>l\<in>set ctagLines. headerText (l @ [CHR 0x0A]) = [] \<Longrightarrow>
     ParseFile sched ctagLines disk path U = Inl IndexOutOfRange"
proof -
  assume "\<exists>l\<in>set ctagLines. headerText (l @ [CHR 0x0A]) = []"
  then have "\<exists>h\<in>set (map (\<lambda>l. l @ [CHR 0x0A]) ctagLines). headerText h = []"
    by simp
  then have "headerTasks (typeSteps sched) U 0 (map (\<lambda>l. l @ [CHR 0x0A]) ctagLines)
      = Inl IndexOutOfRange"
    by (rule headerTasks_blank)
  then show ?thesis by (simp add: ParseFile_def)
qed

subsection \<open>Source extraction\<close>

lemma balance_panics_iff: "(\<exists>e. balance arr m = Inl e) = (m < 0)"
  by (auto simp: balance_def Let_def split: option.splits prod.splits)

declare extractLoop.simps [simp del]

lemma extractLoop_after_delete:
  "length funcs < funcLen \<Longrightarrow> fi < funcLen \<Longrightarrow> \<exists>e. extractLoop content funcs fi funcLen = Inl e"
proof (induction content funcs fi funcLen rule: extractLoop.induct)
  case (1 content funcs fi funcLen)
  show ?case
  proof (cases "fi \<ge> length funcs")
    case True
    with 1 show ?thesis by (simp add: extractLoop.simps [of content funcs fi])
  next
    case False
    then have fi: "Suc fi < funcLen" using "1.prems" by simp
    show ?thesis
    proof (cases "length (Header (funcs ! fi)) = 0")
      case True
      with 1 False show ?thesis by (simp add: extractLoop.simps [of content funcs fi])
    next
      case hdr: False
      show ?thesis
      proof (cases "balance content (Index content (Header (funcs ! fi)))")
        case (Inl e)
        with 1 False hdr show ?thesis by (simp add: extractLoop.simps [of content funcs fi])
      next
        case (Inr src)
        show ?thesis
        proof (cases "length src > 0")
          case True
          have "\<exists>e. extractLoop content (funcs[fi := (funcs ! fi)\<lparr>Source := src\<rparr>]) (Suc fi) funcLen = Inl e"
            using "1.prems" False hdr Inr True fi
            by (intro "1.IH"(1)) simp_all
          then show ?thesis
            using "1.prems" False hdr Inr True
            by (simp add: extractLoop.simps [of content funcs fi] Let_def)
        next
          case nosrc: False
          have "\<exists>e. extractLoop content (take fi funcs @ drop (Suc fi) funcs) (Suc fi) funcLen = Inl e"
            using "1.prems" False hdr Inr nosrc fi
            by (intro "1.IH"(2)) simp_all
          then show ?thesis
            using "1.prems" False hdr Inr nosrc
            by (simp add: extractLoop.simps [of content funcs fi] Let_def)
        qed
      qed
    qed
  qed
qed

lemma extractFuncSrc_first_fails:
  assumes "2 \<le> length (Funcs f)"
    and "Header (Funcs f ! 0) \<noteq> []"
    and "balance content (Index content (Header (Funcs f ! 0))) = Inr []"
  shows "\<exists>e. extractFuncSrc f (Some content) = Inl e"
proof -
  have "\<exists>e. extractLoop content (drop (Suc 0) (Funcs f)) (Suc 0) (length (Funcs f)) = Inl e"
    using assms(1) by (intro extractLoop_after_delete) simp_all
  moreover have "extractLoop content (Funcs f) 0 (length (Funcs f))
      = extractLoop content (drop (Suc 0) (Funcs f)) (Suc 0) (length (Funcs f))"
  proof -
    from assms(1) have "Funcs f \<noteq> []" by auto
    with assms show ?thesis
      by (simp add: extractLoop.simps [of content "Funcs f" 0] Let_def)
  qed
  ultimately show ?thesis by (auto simp: extractFuncSrc_def)
qed

text \<open>
  C3 (the code differs from the claim). \<open>f.Funcs\<close> holds the two functions in the
  order of their headers; extraction fails for the first and would succeed for the
  second. After the first is deleted the loop goes on to index 1 with the length it read
  before the loop, and the read of \<open>f.Funcs[1]\<close> panics: the second function is not
  processed and no \<open>File\<close> is returned.
\<close>

theorem extraction_failure_before_last_panics:
  "balance twoFunctions (Index twoFunctions (Header functionF)) = Inr []
   \<and> balance twoFunctions (Index twoFunctions (Header functionG))
       = Inr ''public static int g(int a) { }''
   \<and> extractFuncSrc
         \<lparr>File_Id = hash ''src/X.java'', File_Name = ''X.java'', Path = ''src/X.java'',
          Funcs = [functionF, functionG]\<rparr>
         (Some twoFunctions)
       = Inl IndexOutOfRange"
  by code_simp

text \<open>
  \<open>ParseFile\<close> builds this list when the goroutines of the two headers append one
  after the other; when the second goroutine appends first, the list is \<open>[g, f]\<close>, the
  failing function is the last one, and \<open>g\<close> is kept with its source.
\<close>

lemma ParseFile_in_order_panics:
  "ParseFile inOrder [''    public static int f(int a) {'', ''    public static int g(int a) {'']
     (Some twoFunctions) ''src/X.java'' modifierUniverse
   = Inl IndexOutOfRange"
  by code_simp

lemma ParseFile_second_first_keeps:
  "ParseFile \<lparr>typeSteps = (\<lambda>i. inOrderTypes), headerSteps = [1, 1, 1]\<rparr>
     [''    public static int f(int a) {'', ''    public static int g(int a) {'']
     (Some twoFunctions) ''src/X.java'' modifierUniverse
   = Inr (\<lparr>File_Id = hash ''src/X.java'', File_Name = ''X.java'', Path = ''src/X.java'',
           Funcs = [functionG\<lparr>Source := ''public static int g(int a) { }''\<rparr>]\<rparr>, True)"
  by code_simp

text \<open>
  With a single header line whose goroutines append at most one type to each slice,
  nothing races and the result is the same for every interleaving.
\<close>

lemma parse_short_interleaving:
  assumes "length (appended (inGoroutines H U)) \<le> 1"
    and "length (appended (outGoroutines H U)) \<le> 1"
  shows "parseJavaFuncHeader s H U = parseJavaFuncHeader inOrderTypes H U"
  using assms by (simp add: parse_unfold raceAppend_short)

lemma ParseFile_single_line:
  assumes "length (appended (inGoroutines (l @ [CHR 0x0A]) U)) \<le> 1"
    and "length (appended (outGoroutines (l @ [CHR 0x0A]) U)) \<le> 1"
  shows "ParseFile sched [l] disk path U = ParseFile inOrder [l] disk path U"
proof -
  define task where "task = headerTask inOrderTypes U (l @ [CHR 0x0A])"
  have t: "headerTask (typeSteps sched 0) U (l @ [CHR 0x0A]) = task"
    unfolding task_def
    by (simp only: headerTask_def parse_short_interleaving [OF assms, of "typeSteps sched 0"])
  have t0: "headerTask (typeSteps inOrder 0) U (l @ [CHR 0x0A]) = task"
    by (simp add: task_def inOrder_def)
  have short: "raceAppend zeroFunction steps (appended [eff]) = appended [eff]" for steps eff
    by (cases eff) (simp_all add: raceAppend_short)
  show ?thesis
  proof (cases task)
    case (Inl e)
    then show ?thesis by (simp add: ParseFile_def t t0)
  next
    case (Inr eff)
    then show ?thesis by (simp add: ParseFile_def t t0 short)
  qed
qed

text \<open>
  C4 (the code differs from the claim). The stored header is the header line without
  its braces; with a comment after the brace it does not occur in the file, the anchor
  is -1, and \<open>balance\<close> panics on \<open>arr[-1]\<close>, for every interleaving.
\<close>

theorem missing_anchor_panics:
  "TrimSpace (ReplaceAllEmpty (''    public static int f(int a) { // note'' @ [CHR 0x0A]) (CHR 0x7B))
     = ''public static int f(int a)  // note''
   \<and> Index commentedHeader ''public static int f(int a)  // note'' = - 1
   \<and> ParseFile sched [''    public static int f(int a) { // note''] (Some commentedHeader)
         ''src/X.java'' modifierUniverse
       = Inl IndexOutOfRange"
proof -
  let ?l = "''    public static int f(int a) { // note''"
  have a: "TrimSpace (ReplaceAllEmpty (?l @ [CHR 0x0A]) (CHR 0x7B))
      = ''public static int f(int a)  // note''"
    by code_simp
  have b: "Index commentedHeader ''public static int f(int a)  // note'' = - 1"
    by code_simp
  have "length (appended (inGoroutines (?l @ [CHR 0x0A]) modifierUniverse)) \<le> 1"
    and "length (appended (outGoroutines (?l @ [CHR 0x0A]) modifierUniverse)) \<le> 1"
    by code_simp+
  then have "ParseFile sched [?l] (Some commentedHeader) ''src/X.java'' modifierUniverse
      = ParseFile inOrder [?l] (Some commentedHeader) ''src/X.java'' modifierUniverse"
    by (rule ParseFile_single_line)
  also have "\<dots> = Inl IndexOutOfRange"
    by code_simp
  finally show ?thesis using a b by simp
qed

text \<open>
  \<open>log.Fatal\<close> is not reached when the goroutines of the headers append one after the
  other: an accepted header has a parenthesis, which removing the braces and trimming
  keep, so every stored header is non-empty. It is reached when racing appends leave a
  zero-valued \<open>Function\<close> in \<open>funcHeaders\<close>.
\<close>

lemma accepted_has_paren:
  assumes "parseJavaFuncHeader s h U = Inr (name, ins, outs, True)"
  shows "CHR ''('' \<in> set h"
proof -
  from assms have two: "length (Split (headerText h) ''('') = 2"
    by (auto simp: parse_unfold split: if_splits)
  have "CHR ''('' \<in> set (headerText h)"
  proof (rule ccontr)
    assume "CHR ''('' \<notin> set (headerText h)"
    then have "Split (headerText h) ''('' = [headerText h]"
      by (rule Split_no_sep)
    with two show False by simp
  qed
  then have "CHR ''('' \<in> set (hd (Split h ''//''))"
    using TrimSpace_subset [of "hd (Split h ''//'')"] by (auto simp: headerText_def)
  then show ?thesis
    using set_hd_Split [of h "''//''"] by auto
qed

lemma headerTask_header:
  assumes "headerTask s U h = Inr (Append fn)"
  shows "Header fn \<noteq> []"
proof -
  from assms obtain name ins outs where acc: "parseJavaFuncHeader s h U = Inr (name, ins, outs, True)"
    and fn: "Header fn = TrimSpace (ReplaceAllEmpty h (CHR 0x7B))"
    by (auto simp: headerTask_def split: sum.splits if_splits)
  have "CHR ''('' \<in> set (ReplaceAllEmpty h (CHR 0x7B))"
    using accepted_has_paren [OF acc] by (simp add: ReplaceAllEmpty_def)
  then have "CHR ''('' \<in> set (TrimSpace (ReplaceAllEmpty h (CHR 0x7B)))"
    using paren_not_space(1) by (rule TrimSpace_keeps)
  then show ?thesis
    by (auto simp: fn)
qed

lemma headerTasks_headers:
  "headerTasks ts U i hs = Inr effs \<Longrightarrow> \<forall>fn\<in>set (appended effs). Header fn \<noteq> []"
proof (induction hs arbitrary: i effs)
  case Nil
  then show ?case by simp
next
  case (Cons h hs)
  from Cons.prems obtain eff effs' where h: "headerTask (ts i) U h = Inr eff"
    and rest: "headerTasks ts U (Suc i) hs = Inr effs'" and effs: "effs = eff # effs'"
    by (auto split: sum.splits)
  from Cons.IH [OF rest] have tail: "\<forall>fn\<in>set (appended effs'). Header fn \<noteq> []" .
  show ?case
  proof (cases eff)
    case (Append fn)
    with h have "Header fn \<noteq> []" by (simp add: headerTask_header)
    with tail Append show ?thesis by (simp add: effs)
  next
    case SetHalt
    with tail show ?thesis by (simp add: effs)
  next
    case NoEffect
    with tail show ?thesis by (simp add: effs)
  qed
qed

lemma balance_failure: "balance arr m = Inl e \<Longrightarrow> e = IndexOutOfRange"
  by (auto simp: balance_def Let_def split: if_splits option.splits prod.splits)

lemma extractLoop_not_fatal:
  "\<forall>fn\<in>set funcs. Header fn \<noteq> [] \<Longrightarrow> extractLoop content funcs fi funcLen \<noteq> Inl LogFatal"
proof (induction content funcs fi funcLen rule: extractLoop.induct)
  case (1 content funcs fi funcLen)
  show ?case
  proof (cases "fi < funcLen \<and> fi < length funcs")
    case False
    then show ?thesis by (auto simp: extractLoop.simps [of content funcs fi])
  next
    case True
    then have hdr: "Header (funcs ! fi) \<noteq> []" using "1.prems" by simp
    show ?thesis
    proof (cases "balance content (Index content (Header (funcs ! fi)))")
      case (Inl e)
      then have "e = IndexOutOfRange" by (rule balance_failure)
      with Inl True hdr show ?thesis
        by (simp add: extractLoop.simps [of content funcs fi])
    next
      case (Inr src)
      show ?thesis
      proof (cases "length src > 0")
        case pos: True
        have "\<forall>fn\<in>set (funcs[fi := (funcs ! fi)\<lparr>Source := src\<rparr>]). Header fn \<noteq> []"
        proof
          fix fn assume "fn \<in> set (funcs[fi := (funcs ! fi)\<lparr>Source := src\<rparr>])"
          then have "fn \<in> insert ((funcs ! fi)\<lparr>Source := src\<rparr>) (set funcs)"
            using set_update_subset_insert by fast
          with "1.prems" hdr show "Header fn \<noteq> []" by auto
        qed
        then have "extractLoop content (funcs[fi := (funcs ! fi)\<lparr>Source := src\<rparr>]) (Suc fi) funcLen
            \<noteq> Inl LogFatal"
          using True hdr Inr pos by (intro "1.IH"(1)) simp_all
        with True hdr Inr pos show ?thesis
          by (simp add: extractLoop.simps [of content funcs fi] Let_def)
      next
        case nosrc: False
        have "\<forall>fn\<in>set (take fi funcs @ drop (Suc fi) funcs). Header fn \<noteq> []"
          using "1.prems" by (auto dest: in_set_takeD in_set_dropD)
        then have "extractLoop content (take fi funcs @ drop (Suc fi) funcs) (Suc fi) funcLen
            \<noteq> Inl LogFatal"
          using True hdr Inr nosrc by (intro "1.IH"(2)) simp_all
        with True hdr Inr nosrc show ?thesis
          by (simp add: extractLoop.simps [of content funcs fi] Let_def)
      qed
    qed
  qed
qed

lemma ParseFile_in_order_not_fatal:
  assumes "headerSteps sched = []"
  shows "ParseFile sched ctagLines disk path U \<noteq> Inl LogFatal"
proof (cases "headerTasks (typeSteps sched) U 0 (map (\<lambda>l. l @ [CHR 0x0A]) ctagLines)")
  case (Inl e)
  have "\<exists>h\<in>set (map (\<lambda>l. l @ [CHR 0x0A]) ctagLines). headerText h = []"
  proof (rule ccontr)
    assume "\<not> (\<exists>h\<in>set (map (\<lambda>l. l @ [CHR 0x0A]) ctagLines). headerText h = [])"
    then have "\<forall>h\<in>set (map (\<lambda>l. l @ [CHR 0x0A]) ctagLines). headerText h \<noteq> []"
      by simp
    then have "\<exists>effs. headerTasks (typeSteps sched) U 0 (map (\<lambda>l. l @ [CHR 0x0A]) ctagLines)
        = Inr effs"
      by (rule headerTasks_total)
    with Inl show False by simp
  qed
  then have "headerTasks (typeSteps sched) U 0 (map (\<lambda>l. l @ [CHR 0x0A]) ctagLines)
      = Inl IndexOutOfRange"
    by (rule headerTasks_blank)
  then show ?thesis
    by (simp add: ParseFile_def)
next
  case (Inr effs)
  then have "\<forall>fn\<in>set (appended effs). Header fn \<noteq> []"
    by (rule headerTasks_headers)
  then have "extractLoop content (appended effs) 0 (length (appended effs)) \<noteq> Inl LogFatal"
    for content
    by (rule extractLoop_not_fatal)
  with Inr assms show ?thesis
    by (auto simp: ParseFile_def Let_def extractFuncSrc_def raceAppend_in_order
        split: sum.splits option.splits)
qed

lemma racing_appends_reach_log_fatal:
  "ParseFile \<lparr>typeSteps = (\<lambda>i. inOrderTypes), headerSteps = [0, 0, 1, 1, 1, 0]\<rparr>
     [''    public static int f(int a) {'', ''    public static int g(int a) {'']
     (Some twoFunctions) ''src/X.java'' modifierUniverse
   = Inl LogFatal"
  by code_simp


end
